theory Spec2Isabelle
  imports Main
begin

section \<open>Python values of \<open>data/text_data.py\<close>\<close>

text \<open>
  The exceptions the module can raise.  \<open>AssertionError\<close> carries the source line of the
  failing \<open>assert\<close> (196: the lengths of one batch, 198: the running total), so that the
  two assertions of \<open>create_data_batch\<close> are told apart.  \<open>KeyError\<close> is Python's subclass
  of \<open>LookupError\<close> raised by a dictionary subscript.
\<close>

datatype error =
  KeyError | IndexError | TypeError | ValueError | OverflowError | AssertionError nat

text \<open>
  A Python \<open>dict\<close> is an association list in insertion order with distinct keys:
  \<open>d[k] = v\<close> replaces the value in place when the key is present and appends the pair
  otherwise, \<open>len(d)\<close> is the number of pairs, and \<open>d.items()\<close> walks the list.
\<close>

definition dict_get :: "('k \<times> 'v) list \<Rightarrow> 'k \<Rightarrow> 'v option" where
  "dict_get d k = map_of d k"

fun dict_set :: "('k \<times> 'v) list \<Rightarrow> 'k \<Rightarrow> 'v \<Rightarrow> ('k \<times> 'v) list" where
  "dict_set [] k v = [(k, v)]"
| "dict_set (p # d) k v = (if fst p = k then (k, v) # d else p # dict_set d k v)"

definition dict_contains :: "('k \<times> 'v) list \<Rightarrow> 'k \<Rightarrow> bool" where
  "dict_contains d k = (dict_get d k \<noteq> None)"

section \<open>\<open>VocabEntry\<close>\<close>

record VocabEntry =
  word2id :: "(string \<times> int) list"
  unk_id :: int
  id2word_dict :: "(int \<times> string) list"

text \<open>\<open>{v: k for k, v in self.word2id.items()}\<close>: later pairs overwrite earlier ones.\<close>

definition invert_items :: "(string \<times> int) list \<Rightarrow> (int \<times> string) list" where
  "invert_items items = foldl (\<lambda>d kv. dict_set d (snd kv) (fst kv)) [] items"

definition reserved_word2id :: "(string \<times> int) list" where
  "reserved_word2id =
     dict_set (dict_set (dict_set (dict_set [] ''<pad>'' 0) ''<s>'' 1) ''</s>'' 2) ''<unk>'' 3"

text \<open>
  \<open>VocabEntry.__init__(word2id=None)\<close>.  The test \<open>if word2id:\<close> is false for \<open>None\<close> and
  for an empty dictionary; on the other branch \<open>word2id['<unk>']\<close> raises \<open>KeyError\<close> when
  the key is missing.
\<close>

definition VocabEntry_init :: "(string \<times> int) list option \<Rightarrow> error + VocabEntry" where
  "VocabEntry_init arg =
     (case arg of
        None \<Rightarrow>
          Inr \<lparr>word2id = reserved_word2id, unk_id = 3,
               id2word_dict = invert_items reserved_word2id\<rparr>
      | Some m \<Rightarrow>
          if m \<noteq> [] then
            (case dict_get m ''<unk>'' of
               None \<Rightarrow> Inl KeyError
             | Some u \<Rightarrow> Inr \<lparr>word2id = m, unk_id = u, id2word_dict = invert_items m\<rparr>)
          else
            Inr \<lparr>word2id = reserved_word2id, unk_id = 3,
                 id2word_dict = invert_items reserved_word2id\<rparr>)"

text \<open>\<open>__getitem__\<close>: \<open>self.word2id.get(word, self.unk_id)\<close>.\<close>

definition VocabEntry_getitem :: "VocabEntry \<Rightarrow> string \<Rightarrow> int" where
  "VocabEntry_getitem v w = (case dict_get (word2id v) w of Some i \<Rightarrow> i | None \<Rightarrow> unk_id v)"

text \<open>\<open>__contains__\<close>: \<open>word in self.word2id\<close>.\<close>

definition VocabEntry_contains :: "VocabEntry \<Rightarrow> string \<Rightarrow> bool" where
  "VocabEntry_contains v w = dict_contains (word2id v) w"

text \<open>\<open>__len__\<close>: \<open>len(self.word2id)\<close>.\<close>

definition VocabEntry_len :: "VocabEntry \<Rightarrow> nat" where
  "VocabEntry_len v = length (word2id v)"

text \<open>
  \<open>add(word)\<close>, returning the outcome of the call and the object as the call leaves it.
  For an unknown word the chained assignment \<open>wid = self.word2id[word] = len(self)\<close> stores
  the pair in \<open>word2id\<close>; the next statement is \<open>self.id2word[wid] = word\<close>, where
  \<open>self.id2word\<close> is the bound method \<open>id2word\<close> of the class (the inverse dictionary is
  the attribute \<open>id2word_\<close>), and item assignment on a method object raises \<open>TypeError\<close>.
  So the call raises after \<open>word2id\<close> has been updated; \<open>id2word_\<close> is not touched and
  \<open>return wid\<close> is not reached.
\<close>

definition VocabEntry_add :: "VocabEntry \<Rightarrow> string \<Rightarrow> (error + int) \<times> VocabEntry" where
  "VocabEntry_add v w =
     (if \<not> VocabEntry_contains v w then
        (let wid = int (VocabEntry_len v);
             v' = v\<lparr>word2id := dict_set (word2id v) w wid\<rparr>
         in (Inl TypeError, v'))
      else (Inr (VocabEntry_getitem v w), v))"

text \<open>\<open>id2word(wid)\<close>: \<open>self.id2word_[wid]\<close>, a \<open>KeyError\<close> when the id is not a key.\<close>

definition VocabEntry_id2word :: "VocabEntry \<Rightarrow> int \<Rightarrow> error + string" where
  "VocabEntry_id2word v wid =
     (case dict_get (id2word_dict v) wid of None \<Rightarrow> Inl KeyError | Some w \<Rightarrow> Inr w)"

text \<open>
  The states a \<open>VocabEntry\<close> object can be in: as a constructor call that returns leaves
  it, and as any call of \<open>add\<close> leaves it (whether the call returned or raised).
\<close>

inductive vocab_state :: "VocabEntry \<Rightarrow> bool" where
  constructed: "VocabEntry_init arg = Inr v \<Longrightarrow> vocab_state v"
| added: "vocab_state v \<Longrightarrow> vocab_state (snd (VocabEntry_add v w))"

section \<open>\<open>MonoTextData\<close>: reading the corpus\<close>

text \<open>
  The file is the list of lines that iterating over it yields; an unreadable path is
  outside the model.  A character is a code point below 256, and \<open>str.split()\<close> with no
  argument cuts at runs of the characters for which \<open>str.isspace\<close> holds (tab to carriage
  return, the four separators 28 to 31, the space, and the code points 133 and 160),
  returning the non-empty pieces.
\<close>

definition isspace :: "char \<Rightarrow> bool" where
  "isspace c =
     (let n = (of_char c :: nat)
      in (9 \<le> n \<and> n \<le> 13) \<or> (28 \<le> n \<and> n \<le> 32) \<or> n = 133 \<or> n = 160)"

fun split_from :: "string \<Rightarrow> string \<Rightarrow> string list" where
  "split_from tok [] = (if tok = [] then [] else [tok])"
| "split_from tok (c # cs) =
     (if isspace c then (if tok = [] then split_from [] cs else tok # split_from [] cs)
      else split_from (tok @ [c]) cs)"

definition str_split :: "string \<Rightarrow> string list" where
  "str_split line = split_from [] line"

text \<open>
  The local variable \<open>vocab\<close> of \<open>_read_corpus\<close> is either the
  \<open>defaultdict(lambda: len(vocab))\<close> the method creates, or the \<open>VocabEntry\<close> it was given.
  Subscripting the \<open>defaultdict\<close> with a missing key calls the factory, which reads the
  size before the insertion, and stores the result under the key; subscripting the
  \<open>VocabEntry\<close> is \<open>__getitem__\<close> and changes nothing.
\<close>

datatype vocab_obj = DefaultDict "(string \<times> int) list" | Entry VocabEntry

fun vocab_getitem :: "vocab_obj \<Rightarrow> string \<Rightarrow> int \<times> vocab_obj" where
  "vocab_getitem (DefaultDict d) w =
     (case dict_get d w of
        Some i \<Rightarrow> (i, DefaultDict d)
      | None \<Rightarrow> (int (length d), DefaultDict (dict_set d w (int (length d)))))"
| "vocab_getitem (Entry v) w = (VocabEntry_getitem v w, Entry v)"

text \<open>\<open>[vocab[word] for word in line.split()]\<close>, left to right.\<close>

fun lookup_words :: "vocab_obj \<Rightarrow> string list \<Rightarrow> int list \<times> vocab_obj" where
  "lookup_words vo [] = ([], vo)"
| "lookup_words vo (w # ws) =
     (case vocab_getitem vo w of
        (i, vo1) \<Rightarrow> (case lookup_words vo1 ws of (ids, vo2) \<Rightarrow> (i # ids, vo2)))"

text \<open>
  The nested tests \<open>if max_length:\<close> and \<open>if len(split_line) > max_length:\<close> on a line
  of \<open>n\<close> tokens.  The first is false for \<open>None\<close> and for 0.
\<close>

definition over_length :: "int option \<Rightarrow> nat \<Rightarrow> bool" where
  "over_length max_length n =
     (case max_length of None \<Rightarrow> False | Some m \<Rightarrow> m \<noteq> 0 \<and> int n > m)"

text \<open>The loop \<open>for line in fin\<close> of \<open>_read_corpus\<close>, on the rest of the lines.\<close>

fun read_lines ::
  "int option \<Rightarrow> string list \<Rightarrow> int list list \<Rightarrow> vocab_obj \<Rightarrow> nat
     \<Rightarrow> int list list \<times> vocab_obj \<times> nat" where
  "read_lines max_length [] data vocab dropped = (data, vocab, dropped)"
| "read_lines max_length (line # rest) data vocab dropped =
     (let split_line = str_split line in
      if length split_line < 1 then read_lines max_length rest data vocab (dropped + 1)
      else if over_length max_length (length split_line)
        then read_lines max_length rest data vocab (dropped + 1)
      else (case lookup_words vocab (str_split line) of
              (ids, vocab') \<Rightarrow> read_lines max_length rest (data @ [ids]) vocab' dropped))"

text \<open>
  \<open>_read_corpus(fname, max_length, vocab)\<close>.  \<open>if not vocab:\<close> holds for \<open>None\<close> and for
  a \<open>VocabEntry\<close> whose \<open>__len__\<close> is 0; the four assignments that seed the \<open>defaultdict\<close>
  are those of \<open>reserved_word2id\<close>.  At the end a \<open>VocabEntry\<close> is returned as it is and the
  \<open>defaultdict\<close> is wrapped by the constructor.
\<close>

definition read_corpus ::
  "string list \<Rightarrow> int option \<Rightarrow> VocabEntry option
     \<Rightarrow> error + (int list list \<times> VocabEntry \<times> nat)" where
  "read_corpus lines max_length vocab =
     (let vocab0 =
        (case vocab of
           None \<Rightarrow> DefaultDict reserved_word2id
         | Some v \<Rightarrow> if VocabEntry_len v = 0 then DefaultDict reserved_word2id else Entry v)
      in case read_lines max_length lines [] vocab0 0 of
           (data, Entry v, dropped) \<Rightarrow> Inr (data, v, dropped)
         | (data, DefaultDict d, dropped) \<Rightarrow>
             (case VocabEntry_init (Some d) of
                Inl e \<Rightarrow> Inl e
              | Inr v \<Rightarrow> Inr (data, v, dropped)))"

record MonoTextData =
  data :: "int list list"
  vocab :: VocabEntry
  dropped :: nat

text \<open>\<open>MonoTextData.__init__(fname, max_length=None, vocab=None)\<close>.\<close>

definition MonoTextData_init ::
  "string list \<Rightarrow> int option \<Rightarrow> VocabEntry option \<Rightarrow> error + MonoTextData" where
  "MonoTextData_init lines max_length vocab_arg =
     (case read_corpus lines max_length vocab_arg of
        Inl e \<Rightarrow> Inl e
      | Inr (d, v, n) \<Rightarrow> Inr \<lparr>data = d, vocab = v, dropped = n\<rparr>)"

text \<open>
  Notions used in the proofs about the scan: the id the vocabulary object gives a word
  without inserting it, whether it holds the word, and that one object continues another
  (a \<open>defaultdict\<close> keeps its entries, a \<open>VocabEntry\<close> stays the same).
\<close>

fun vo_get :: "vocab_obj \<Rightarrow> string \<Rightarrow> int" where
  "vo_get (DefaultDict d) w = (case dict_get d w of Some i \<Rightarrow> i | None \<Rightarrow> 3)"
| "vo_get (Entry v) w = VocabEntry_getitem v w"

fun vo_known :: "vocab_obj \<Rightarrow> string \<Rightarrow> bool" where
  "vo_known (DefaultDict d) w = dict_contains d w"
| "vo_known (Entry v) w = True"

fun vo_extends :: "vocab_obj \<Rightarrow> vocab_obj \<Rightarrow> bool" where
  "vo_extends (DefaultDict d) (DefaultDict d') =
     (\<forall>k i. dict_get d k = Some i \<longrightarrow> dict_get d' k = Some i)"
| "vo_extends (Entry v) (Entry v') = (v = v')"
| "vo_extends _ _ = False"

text \<open>A line is dropped by the scan: no token, or a length test that is on and exceeded.\<close>

definition line_dropped :: "int option \<Rightarrow> string \<Rightarrow> bool" where
  "line_dropped max_length line =
     (str_split line = [] \<or> over_length max_length (length (str_split line)))"

section \<open>\<open>MonoTextData\<close>: padding and batching\<close>

text \<open>
  A two-dimensional tensor of token ids is the list of its rows; \<open>size(0)\<close> is the number
  of rows and \<open>permute(1, 0)\<close> exchanges rows and columns.  The device and the gradient
  flag do not bear on the values and are left out.
\<close>

type_synonym tensor = "int list list"

definition size0 :: "tensor \<Rightarrow> nat" where
  "size0 t = length t"

definition permute10 :: "tensor \<Rightarrow> tensor" where
  "permute10 rows =
     (case rows of
        [] \<Rightarrow> []
      | r # _ \<Rightarrow> map (\<lambda>j. map (\<lambda>row. row ! j) rows) [0..<length r])"

text \<open>
  \<open>_to_tensor(batch_data, batch_first, device)\<close> in two parts.  \<open>stack_rows\<close> is the
  method from \<open>sents_len = [len(sent) for sent in batch_data]\<close> on, given the start and
  pad ids and the sentences that already end in the stop symbol: \<open>max\<close> of an empty list
  raises \<open>ValueError\<close>; otherwise the rows are built as the source builds them and the
  returned lengths are the lengths after the stop symbol, plus one.  \<open>to_tensor\<close> first
  appends the stop symbol to a copy of every sentence (\<open>sent + [self.vocab['</s>']]\<close>).
\<close>

definition stack_rows ::
  "int \<Rightarrow> int \<Rightarrow> int list list \<Rightarrow> bool \<Rightarrow> error + (tensor \<times> nat list)" where
  "stack_rows start pad batch_data1 batch_first =
     (let sents_len = map length batch_data1
      in case sents_len of
           [] \<Rightarrow> Inl ValueError
         | l # ls \<Rightarrow>
             (let max_len = fold max ls l;
                  batch_size = length sents_len;
                  sents_new =
                    replicate batch_size start #
                    map (\<lambda>i. map (\<lambda>sent. if length sent > i then sent ! i else pad) batch_data1)
                        [0..<max_len];
                  sents_ts = (if batch_first then permute10 sents_new else sents_new)
              in Inr (sents_ts, map (\<lambda>len. len + 1) sents_len)))"

definition to_tensor ::
  "VocabEntry \<Rightarrow> int list list \<Rightarrow> bool \<Rightarrow> error + (tensor \<times> nat list)" where
  "to_tensor v batch_data batch_first =
     stack_rows (VocabEntry_getitem v ''<s>'') (VocabEntry_getitem v ''<pad>'')
       (map (\<lambda>sent. sent @ [VocabEntry_getitem v ''</s>'']) batch_data) batch_first"

text \<open>
  \<open>int(np.ceil(len(index_arr)) / float(batch_size))\<close> for an array of \<open>n\<close> indices: the
  ceiling is taken of the integer \<open>n\<close>, the quotient is a float and \<open>int\<close> truncates it
  towards zero.  A zero \<open>batch_size\<close> gives an infinite quotient (\<open>OverflowError\<close> in
  \<open>int\<close>) or, for \<open>n = 0\<close>, a NaN (\<open>ValueError\<close>).  The quotient of the doubles is taken
  to be exact, which it is for sizes below \<open>2^53\<close>.
\<close>

definition batch_num_of :: "nat \<Rightarrow> int \<Rightarrow> error + int" where
  "batch_num_of n batch_size =
     (if batch_size = 0 then (if n = 0 then Inl ValueError else Inl OverflowError)
      else if batch_size > 0 then Inr (int n div batch_size)
      else Inr (- (int n div (- batch_size))))"

text \<open>
  The body of the loop \<open>for i in range(batch_num)\<close> of \<open>data_iter\<close>, over the remaining
  values of \<open>i\<close>; the result lists what the generator yields, or is the exception that
  ends the iteration.  The loop runs only for a positive \<open>batch_size\<close>, where the slice
  \<open>index_arr[i * batch_size : (i+1) * batch_size]\<close> is a \<open>take\<close> of a \<open>drop\<close>.
  \<open>list.sort\<close> is stable, as \<open>sort_key\<close> is.
\<close>

fun iter_batches ::
  "int list list \<Rightarrow> VocabEntry \<Rightarrow> nat \<Rightarrow> bool \<Rightarrow> nat list \<Rightarrow> nat list
     \<Rightarrow> error + (tensor \<times> nat list) list" where
  "iter_batches dat v b batch_first index_arr [] = Inr []"
| "iter_batches dat v b batch_first index_arr (i # rest) =
     (let batch_ids = take b (drop (i * b) index_arr);
          batch_data = map (\<lambda>index. dat ! index) batch_ids;
          batch_sorted = sort_key (\<lambda>e. - int (length e)) batch_data
      in case to_tensor v batch_sorted batch_first of
           Inl e \<Rightarrow> Inl e
         | Inr r \<Rightarrow>
             (case iter_batches dat v b batch_first index_arr rest of
                Inl e \<Rightarrow> Inl e
              | Inr rs \<Rightarrow> Inr (r # rs)))"

text \<open>
  \<open>data_iter(batch_size, device, batch_first, shuffle)\<close>, run to the end.  The argument
  \<open>shuffled\<close> is the array that \<open>np.random.shuffle\<close> leaves in place of
  \<open>np.arange(len(self.data))\<close>: some permutation of the indices.
\<close>

definition data_iter ::
  "MonoTextData \<Rightarrow> int \<Rightarrow> bool \<Rightarrow> bool \<Rightarrow> nat list
     \<Rightarrow> error + (tensor \<times> nat list) list" where
  "data_iter c batch_size batch_first shuffle shuffled =
     (let index_arr = (if shuffle then shuffled else [0..<length (data c)])
      in case batch_num_of (length index_arr) batch_size of
           Inl e \<Rightarrow> Inl e
         | Inr batch_num \<Rightarrow>
             iter_batches (data c) (vocab c) (nat batch_size) batch_first index_arr
               [0..<nat batch_num])"

text \<open>
  \<open>create_data_batch\<close>.  \<open>np.argsort\<close> returns some permutation of the indices that
  sorts the lengths (its default sort is not stable); the permutation is the argument
  \<open>sort_idx\<close>, and \<open>is_argsort\<close> says what is known of it.
\<close>

definition is_argsort :: "nat list \<Rightarrow> nat list \<Rightarrow> bool" where
  "is_argsort sents_len sort_idx =
     (distinct sort_idx \<and> set sort_idx = set [0..<length sents_len] \<and>
      sorted (map (\<lambda>i. sents_len ! i) sort_idx))"

text \<open>The locations where the sorted length changes, and the length of the array.\<close>

definition change_loc_of :: "nat list \<Rightarrow> nat list" where
  "change_loc_of sort_len =
     filter (\<lambda>i. sort_len ! i \<noteq> sort_len ! (i - 1)) [1..<length sort_len] @ [length sort_len]"

text \<open>
  What one pass of the inner loop builds: the sentences of the batch, the tensor appended
  to \<open>batch_data_list\<close> and the lengths \<open>_to_tensor\<close> reports.  The state of the loops is
  the list of passes so far, \<open>total\<close> (here \<open>tot\<close>) and \<open>curr\<close> (here \<open>cur\<close>).
\<close>

record batch_pass =
  sentences :: "int list list"
  padded :: tensor
  reported :: "nat list"

text \<open>
  The loop \<open>while curr < idx\<close>.  \<open>range(curr, next)\<close> is empty when \<open>next \<le> curr\<close>, which
  makes \<open>_to_tensor\<close> raise; \<open>total\<close> grows by \<open>batch_data.size(0)\<close>; the assertion of line
  196 compares the reported lengths with as many copies of the first.
\<close>

function batch_while ::
  "int list list \<Rightarrow> VocabEntry \<Rightarrow> nat list \<Rightarrow> int \<Rightarrow> bool \<Rightarrow> nat
     \<Rightarrow> batch_pass list \<times> nat \<times> nat \<Rightarrow> error + (batch_pass list \<times> nat \<times> nat)" where
  "batch_while dat v sort_idx batch_size batch_first idx (passes, tot, cur) =
     (if cur < idx then
        (let nxt = min (int cur + batch_size) (int idx);
             batch_data = map (\<lambda>i. dat ! (sort_idx ! i)) [cur..<nat nxt]
         in case to_tensor v batch_data batch_first of
              Inl e \<Rightarrow> Inl e
            | Inr (ts, sents_len) \<Rightarrow>
                (case sents_len of
                   [] \<Rightarrow> Inl IndexError
                 | l # _ \<Rightarrow>
                     if sents_len = replicate (length sents_len) l then
                       batch_while dat v sort_idx batch_size batch_first idx
                         (passes @ [\<lparr>sentences = batch_data, padded = ts, reported = sents_len\<rparr>],
                          tot + size0 ts, nat nxt)
                     else Inl (AssertionError 196)))
      else Inr (passes, tot, cur))"
  by pat_completeness auto
termination
proof (relation "measure (\<lambda>(dat, v, sort_idx, batch_size, batch_first, idx, passes, tot, cur).
                    idx - cur)")
  show "wf (measure (\<lambda>(dat, v, sort_idx, batch_size, batch_first, idx, passes, tot, cur).
                    idx - cur))" by simp
next
  fix dat :: "int list list" and v sort_idx and batch_size :: int and batch_first idx
    and passes :: "batch_pass list" and tot cur :: nat and nxt batch_data x2 ts sents_len l ls
  assume c: "cur < idx"
    and n: "nxt = min (int cur + batch_size) (int idx)"
    and b: "batch_data = map (\<lambda>i. dat ! (sort_idx ! i)) [cur..<nat nxt]"
    and t: "to_tensor v batch_data batch_first = Inr x2"
  from t have "batch_data \<noteq> []" by (auto simp: to_tensor_def stack_rows_def)
  with b have "cur < nat nxt" by simp
  moreover from n have "nat nxt \<le> idx" by simp
  ultimately show "((dat, v, sort_idx, batch_size, batch_first, idx,
             passes @ [\<lparr>sentences = batch_data, padded = ts, reported = sents_len\<rparr>],
             tot + size0 ts, nat nxt),
            (dat, v, sort_idx, batch_size, batch_first, idx, passes, tot, cur))
           \<in> measure (\<lambda>(dat, v, sort_idx, batch_size, batch_first, idx, passes, tot, cur).
                    idx - cur)"
    by simp
qed

text \<open>The loop \<open>for idx in change_loc\<close>.\<close>

fun batch_for ::
  "int list list \<Rightarrow> VocabEntry \<Rightarrow> nat list \<Rightarrow> int \<Rightarrow> bool \<Rightarrow> nat list
     \<Rightarrow> batch_pass list \<times> nat \<times> nat \<Rightarrow> error + (batch_pass list \<times> nat \<times> nat)" where
  "batch_for dat v sort_idx batch_size batch_first [] st = Inr st"
| "batch_for dat v sort_idx batch_size batch_first (idx # rest) st =
     (case batch_while dat v sort_idx batch_size batch_first idx st of
        Inl e \<Rightarrow> Inl e
      | Inr st' \<Rightarrow> batch_for dat v sort_idx batch_size batch_first rest st')"

text \<open>The two loops of \<open>create_data_batch\<close>, from the empty list, \<open>total = 0\<close>, \<open>curr = 0\<close>.\<close>

definition batch_passes ::
  "MonoTextData \<Rightarrow> int \<Rightarrow> bool \<Rightarrow> nat list \<Rightarrow> error + (batch_pass list \<times> nat \<times> nat)" where
  "batch_passes c batch_size batch_first sort_idx =
     (let sents_len = map length (data c);
          sort_len = map (\<lambda>i. sents_len ! i) sort_idx;
          change_loc = change_loc_of sort_len
      in batch_for (data c) (vocab c) sort_idx batch_size batch_first change_loc ([], 0, 0))"

text \<open>
  \<open>create_data_batch(batch_size, device, batch_first)\<close>: the loops, the assertion of line
  198 on \<open>total\<close>, and the list of tensors.
\<close>

definition create_data_batch ::
  "MonoTextData \<Rightarrow> int \<Rightarrow> bool \<Rightarrow> nat list \<Rightarrow> error + tensor list" where
  "create_data_batch c batch_size batch_first sort_idx =
     (case batch_passes c batch_size batch_first sort_idx of
        Inl e \<Rightarrow> Inl e
      | Inr (passes, tot, cur) \<Rightarrow>
          if tot = length (data c) then Inr (map padded passes)
          else Inl (AssertionError 198))"

text \<open>
  \<open>data_sample(nsample, device, batch_first, shuffle)\<close>.  The slice \<open>index_arr[:nsample]\<close>
  drops the last \<open>-nsample\<close> indices when \<open>nsample\<close> is negative.
\<close>

definition slice_to :: "int \<Rightarrow> 'a list \<Rightarrow> 'a list" where
  "slice_to n xs = (if n \<ge> 0 then take (nat n) xs else take (length xs - nat (- n)) xs)"

definition data_sample ::
  "MonoTextData \<Rightarrow> int \<Rightarrow> bool \<Rightarrow> bool \<Rightarrow> nat list \<Rightarrow> error + (tensor \<times> nat list)" where
  "data_sample c nsample batch_first shuffle shuffled =
     (let index_arr = (if shuffle then shuffled else [0..<length (data c)]);
          batch_ids = slice_to nsample index_arr;
          batch_data = map (\<lambda>index. data c ! index) batch_ids;
          batch_sorted = sort_key (\<lambda>e. - int (length e)) batch_data
      in to_tensor (vocab c) batch_sorted batch_first)"

section \<open>The batching methods on the object store\<close>

text \<open>
  For the effect of the batching methods on the corpus the objects are kept in a store:
  an address is a position in the list of objects, a new object goes to the end, and an
  in-place operation replaces the object at its address.  A sentence is a list of ids; the
  list \<open>self.data\<close> and every batch hold references to sentences, so a batch shares its
  sentences with the corpus.  The attributes of a \<open>VocabEntry\<close> and of a \<open>MonoTextData\<close>
  are objects too.  Lists of numbers that only one local name refers to (\<open>sents_len\<close>,
  the rows, the tensor) are values.
\<close>

datatype pyobj =
    IntList "int list"
  | RefList "nat list"
  | Dict "(string \<times> int) list"
  | Names "(int \<times> string) list"
  | VocabObj nat int nat
  | CorpusObj nat nat nat

type_synonym store = "pyobj list"

definition deref :: "store \<Rightarrow> nat \<Rightarrow> pyobj option" where
  "deref h a = (if a < length h then Some (h ! a) else None)"

definition alloc :: "store \<Rightarrow> pyobj \<Rightarrow> nat \<times> store" where
  "alloc h obj = (length h, h @ [obj])"

definition assign :: "store \<Rightarrow> nat \<Rightarrow> pyobj \<Rightarrow> store" where
  "assign h a obj = h[a := obj]"

text \<open>
  Reading a list of ids and a list of references.  In a store that holds a corpus
  (\<open>corpus_of\<close> below) the addresses read are of the right kind; the empty list stands
  for the reads that cannot happen.
\<close>

definition ints_at :: "store \<Rightarrow> nat \<Rightarrow> int list" where
  "ints_at h a = (case deref h a of Some (IntList xs) \<Rightarrow> xs | _ \<Rightarrow> [])"

definition refs_at :: "store \<Rightarrow> nat \<Rightarrow> nat list" where
  "refs_at h a = (case deref h a of Some (RefList rs) \<Rightarrow> rs | _ \<Rightarrow> [])"

text \<open>\<open>self.data\<close>, as the list of references it holds.\<close>

definition self_data :: "store \<Rightarrow> nat \<Rightarrow> nat list" where
  "self_data h self = (case deref h self of Some (CorpusObj d v n) \<Rightarrow> refs_at h d | _ \<Rightarrow> [])"

text \<open>
  \<open>self.vocab[word]\<close>: \<open>self.word2id.get(word, self.unk_id)\<close>, a read of the dictionary
  (also when \<open>word2id\<close> is the \<open>defaultdict\<close> of the reading pass: \<open>get\<close> does not call
  the factory).
\<close>

definition vocab_getitem_h :: "store \<Rightarrow> nat \<Rightarrow> string \<Rightarrow> int" where
  "vocab_getitem_h h self w =
     (case deref h self of
        Some (CorpusObj d v n) \<Rightarrow>
          (case deref h v of
             Some (VocabObj wa u ia) \<Rightarrow>
               (case deref h wa of
                  Some (Dict m) \<Rightarrow> (case dict_get m w of Some i \<Rightarrow> i | None \<Rightarrow> u)
                | _ \<Rightarrow> u)
           | _ \<Rightarrow> 0)
      | _ \<Rightarrow> 0)"

text \<open>The corpus that the store holds at an address, when it holds one.\<close>

definition vocab_of :: "store \<Rightarrow> nat \<Rightarrow> VocabEntry option" where
  "vocab_of h v =
     (case deref h v of
        Some (VocabObj wa u ia) \<Rightarrow>
          (case deref h wa of
             Some (Dict m) \<Rightarrow>
               (case deref h ia of
                  Some (Names nm) \<Rightarrow> Some \<lparr>word2id = m, unk_id = u, id2word_dict = nm\<rparr>
                | _ \<Rightarrow> None)
           | _ \<Rightarrow> None)
      | _ \<Rightarrow> None)"

definition is_sentence :: "store \<Rightarrow> nat \<Rightarrow> bool" where
  "is_sentence h r = (case deref h r of Some (IntList xs) \<Rightarrow> True | _ \<Rightarrow> False)"

definition sentences_of :: "store \<Rightarrow> nat \<Rightarrow> int list list option" where
  "sentences_of h d =
     (case deref h d of
        Some (RefList rs) \<Rightarrow>
          if list_all (is_sentence h) rs then Some (map (ints_at h) rs) else None
      | _ \<Rightarrow> None)"

definition corpus_of :: "store \<Rightarrow> nat \<Rightarrow> MonoTextData option" where
  "corpus_of h self =
     (case deref h self of
        Some (CorpusObj d v n) \<Rightarrow>
          (case sentences_of h d of
             Some ss \<Rightarrow>
               (case vocab_of h v of
                  Some vo \<Rightarrow> Some \<lparr>data = ss, vocab = vo, dropped = n\<rparr>
                | None \<Rightarrow> None)
           | None \<Rightarrow> None)
      | _ \<Rightarrow> None)"

text \<open>
  A store made for a corpus: one object per sentence, then \<open>self.data\<close>, the two
  dictionaries, the vocabulary and the corpus object, whose address is returned.
\<close>

definition store_corpus :: "MonoTextData \<Rightarrow> store \<times> nat" where
  "store_corpus c =
     (let n = length (data c)
      in (map IntList (data c) @
          [RefList [0..<n], Dict (word2id (vocab c)), Names (id2word_dict (vocab c)),
           VocabObj (n + 1) (unk_id (vocab c)) (n + 2), CorpusObj n (n + 3) (dropped c)],
          n + 4))"

text \<open>
  The old objects are as they were: the store has only grown at the end.
\<close>

definition preserves :: "store \<Rightarrow> store \<Rightarrow> bool" where
  "preserves h h' = (take (length h) h' = h)"

text \<open>A list comprehension that makes new objects makes them in order.\<close>

fun alloc_list :: "store \<Rightarrow> pyobj list \<Rightarrow> nat list \<times> store" where
  "alloc_list h [] = ([], h)"
| "alloc_list h (obj # objs) =
     (case alloc h obj of
        (a, h1) \<Rightarrow> (case alloc_list h1 objs of (as, h2) \<Rightarrow> (a # as, h2)))"

text \<open>
  \<open>_to_tensor\<close> on the store.  \<open>[sent + [self.vocab['</s>']] for sent in batch_data]\<close>
  makes a new list for every sentence of the batch (\<open>+\<close> copies) and a new list of
  these; the name \<open>batch_data\<close> then refers to the new list, and the rest of the method
  reads it.
\<close>

definition to_tensor_h ::
  "store \<Rightarrow> nat \<Rightarrow> nat \<Rightarrow> bool \<Rightarrow> (error + (tensor \<times> nat list)) \<times> store" where
  "to_tensor_h h self batch_data batch_first =
     (let stop = vocab_getitem_h h self ''</s>''
      in case alloc_list h (map (\<lambda>sent. IntList (ints_at h sent @ [stop])) (refs_at h batch_data)) of
           (new_sents, h1) \<Rightarrow>
             (case alloc h1 (RefList new_sents) of
                (batch_data1, h2) \<Rightarrow>
                  (stack_rows (vocab_getitem_h h2 self ''<s>'') (vocab_getitem_h h2 self ''<pad>'')
                     (map (ints_at h2) (refs_at h2 batch_data1)) batch_first,
                   h2)))"

text \<open>
  \<open>batch_data = [self.data[index] for index in batch_ids]\<close>: a new list of the
  references found in \<open>self.data\<close>.
\<close>

definition gather_h :: "store \<Rightarrow> nat \<Rightarrow> nat list \<Rightarrow> nat \<times> store" where
  "gather_h h self batch_ids =
     alloc h (RefList (map (\<lambda>index. self_data h self ! index) batch_ids))"

text \<open>\<open>batch_data.sort(key=lambda e: -len(e))\<close>: the list at the address is reordered in place.\<close>

definition sort_h :: "store \<Rightarrow> nat \<Rightarrow> store" where
  "sort_h h a =
     assign h a (RefList (sort_key (\<lambda>e. - int (length (ints_at h e))) (refs_at h a)))"

text \<open>\<open>data_sample\<close> on the store.\<close>

definition data_sample_h ::
  "store \<Rightarrow> nat \<Rightarrow> int \<Rightarrow> bool \<Rightarrow> bool \<Rightarrow> nat list
     \<Rightarrow> (error + (tensor \<times> nat list)) \<times> store" where
  "data_sample_h h self nsample batch_first shuffle shuffled =
     (let index_arr = (if shuffle then shuffled else [0..<length (self_data h self)]);
          batch_ids = slice_to nsample index_arr
      in case gather_h h self batch_ids of
           (batch_data, h1) \<Rightarrow> to_tensor_h (sort_h h1 batch_data) self batch_data batch_first)"

text \<open>\<open>data_iter\<close> on the store, run to the end.\<close>

fun iter_batches_h ::
  "store \<Rightarrow> nat \<Rightarrow> nat \<Rightarrow> bool \<Rightarrow> nat list \<Rightarrow> nat list
     \<Rightarrow> (error + (tensor \<times> nat list) list) \<times> store" where
  "iter_batches_h h self b batch_first index_arr [] = (Inr [], h)"
| "iter_batches_h h self b batch_first index_arr (i # rest) =
     (let batch_ids = take b (drop (i * b) index_arr)
      in case gather_h h self batch_ids of
           (batch_data, h1) \<Rightarrow>
             (case to_tensor_h (sort_h h1 batch_data) self batch_data batch_first of
                (Inl e, h2) \<Rightarrow> (Inl e, h2)
              | (Inr r, h2) \<Rightarrow>
                  (case iter_batches_h h2 self b batch_first index_arr rest of
                     (Inl e, h3) \<Rightarrow> (Inl e, h3)
                   | (Inr rs, h3) \<Rightarrow> (Inr (r # rs), h3))))"

definition data_iter_h ::
  "store \<Rightarrow> nat \<Rightarrow> int \<Rightarrow> bool \<Rightarrow> bool \<Rightarrow> nat list
     \<Rightarrow> (error + (tensor \<times> nat list) list) \<times> store" where
  "data_iter_h h self batch_size batch_first shuffle shuffled =
     (let index_arr = (if shuffle then shuffled else [0..<length (self_data h self)])
      in case batch_num_of (length index_arr) batch_size of
           Inl e \<Rightarrow> (Inl e, h)
         | Inr batch_num \<Rightarrow>
             iter_batches_h h self (nat batch_size) batch_first index_arr [0..<nat batch_num])"

text \<open>\<open>batch_data.append(...)\<close>: the list at the address grows in place.\<close>

definition append_h :: "store \<Rightarrow> nat \<Rightarrow> nat \<Rightarrow> store" where
  "append_h h a r = assign h a (RefList (refs_at h a @ [r]))"

text \<open>
  \<open>batch_data = []\<close> and the loop \<open>for id_ in range(curr, next)\<close> with its
  \<open>batch_data.append(self.data[sort_idx[id_]])\<close>, over the ids of the range.
\<close>

definition collect_h :: "store \<Rightarrow> nat \<Rightarrow> nat list \<Rightarrow> nat list \<Rightarrow> nat \<times> store" where
  "collect_h h self sort_idx ids =
     (case alloc h (RefList []) of
        (batch_data, h1) \<Rightarrow>
          (batch_data,
           fold (\<lambda>i h'. append_h h' batch_data (self_data h' self ! (sort_idx ! i))) ids h1))"

text \<open>The loop \<open>while curr < idx\<close> of \<open>create_data_batch\<close> on the store.\<close>

function batch_while_h ::
  "store \<Rightarrow> nat \<Rightarrow> nat list \<Rightarrow> int \<Rightarrow> bool \<Rightarrow> nat \<Rightarrow> tensor list \<times> nat \<times> nat
     \<Rightarrow> (error + (tensor list \<times> nat \<times> nat)) \<times> store" where
  "batch_while_h h self sort_idx batch_size batch_first idx (batch_data_list, tot, cur) =
     (if cur < idx then
        (let nxt = min (int cur + batch_size) (int idx)
         in case collect_h h self sort_idx [cur..<nat nxt] of
              (batch_data, h1) \<Rightarrow>
                (case to_tensor_h h1 self batch_data batch_first of
                   (Inl e, h2) \<Rightarrow> (Inl e, h2)
                 | (Inr (ts, sents_len), h2) \<Rightarrow>
                     (case sents_len of
                        [] \<Rightarrow> (Inl IndexError, h2)
                      | l # _ \<Rightarrow>
                          if sents_len = replicate (length sents_len) l then
                            batch_while_h h2 self sort_idx batch_size batch_first idx
                              (batch_data_list @ [ts], tot + size0 ts, nat nxt)
                          else (Inl (AssertionError 196), h2))))
      else (Inr (batch_data_list, tot, cur), h))"
  by pat_completeness auto
termination
  apply (relation "measure (\<lambda>(h, self, sort_idx, batch_size, batch_first, idx, l, tot, cur).
                    idx - cur)")
   apply simp
  subgoal premises prems
    for h self sort_idx batch_size batch_first idx batch_data_list tot cur x batch_data h1
      xb h2 b ts
proof -
  note c = prems(1)
  note n = prems(2)
  note b = prems(3)
  note t = prems(4)
  have grow: "a < length g \<and> length (refs_at g a) = k \<longrightarrow>
      length (refs_at (fold (\<lambda>i h'. append_h h' a (self_data h' self ! (sort_idx ! i))) ids g) a)
        = k + length ids \<and>
      a < length (fold (\<lambda>i h'. append_h h' a (self_data h' self ! (sort_idx ! i))) ids g)"
    for a g k ids
  proof (induction ids arbitrary: g k)
    case Nil
    then show ?case by simp
  next
    case (Cons i ids)
    show ?case
    proof
      assume a: "a < length g \<and> length (refs_at g a) = k"
      define g' where "g' = append_h g a (self_data g self ! (sort_idx ! i))"
      from a have a1: "a < length g" and a2: "length (refs_at g a) = k" by simp_all
      from a1 have "refs_at g' a = refs_at g a @ [self_data g self ! (sort_idx ! i)]"
        by (simp add: g'_def append_h_def assign_def refs_at_def deref_def)
      with a1 a2 have "a < length g' \<and> length (refs_at g' a) = Suc k"
        by (simp add: g'_def append_h_def assign_def)
      with Cons.IH [of g' "Suc k"] show "length (refs_at (fold (\<lambda>i h'. append_h h' a
            (self_data h' self ! (sort_idx ! i))) (i # ids) g) a) = k + length (i # ids) \<and>
          a < length (fold (\<lambda>i h'. append_h h' a (self_data h' self ! (sort_idx ! i))) (i # ids) g)"
        by (simp add: g'_def)
    qed
  qed
  from b have bd: "batch_data = length h" and h1: "h1 = fold (\<lambda>i h'. append_h h' (length h)
      (self_data h' self ! (sort_idx ! i))) [cur..<nat x] (h @ [RefList []])"
    by (auto simp: collect_h_def alloc_def)
  have "length h < length (h @ [RefList []]) \<and>
      length (refs_at (h @ [RefList []]) (length h)) = 0"
    by (simp add: refs_at_def deref_def)
  with grow [of "length h" "h @ [RefList []]" 0 "[cur..<nat x]"]
  have len: "length (refs_at h1 batch_data) = length [cur..<nat x]"
    unfolding bd h1 by simp
  have "refs_at h1 batch_data \<noteq> []"
  proof
    assume "refs_at h1 batch_data = []"
    then have "fst (to_tensor_h h1 self batch_data batch_first) = Inl ValueError"
      by (simp add: to_tensor_h_def alloc_def refs_at_def deref_def stack_rows_def)
    with t prems(5) show False by (metis fst_conv sum.distinct(1))
  qed
  then have "length (refs_at h1 batch_data) \<noteq> 0" by simp
  with len have "cur < nat x" by simp
  moreover from n have "nat x \<le> idx" by simp
  ultimately show ?thesis by simp
qed
  done

text \<open>The loop \<open>for idx in change_loc\<close> on the store.\<close>

fun batch_for_h ::
  "store \<Rightarrow> nat \<Rightarrow> nat list \<Rightarrow> int \<Rightarrow> bool \<Rightarrow> nat list \<Rightarrow> tensor list \<times> nat \<times> nat
     \<Rightarrow> (error + (tensor list \<times> nat \<times> nat)) \<times> store" where
  "batch_for_h h self sort_idx batch_size batch_first [] st = (Inr st, h)"
| "batch_for_h h self sort_idx batch_size batch_first (idx # rest) st =
     (case batch_while_h h self sort_idx batch_size batch_first idx st of
        (Inl e, h1) \<Rightarrow> (Inl e, h1)
      | (Inr st', h1) \<Rightarrow> batch_for_h h1 self sort_idx batch_size batch_first rest st')"

text \<open>
  \<open>create_data_batch\<close> on the store.  \<open>[len(sent) for sent in self.data]\<close> reads the
  sentences; the lists of numbers are values.
\<close>

definition create_data_batch_h ::
  "store \<Rightarrow> nat \<Rightarrow> int \<Rightarrow> bool \<Rightarrow> nat list \<Rightarrow> (error + tensor list) \<times> store" where
  "create_data_batch_h h self batch_size batch_first sort_idx =
     (let sents_len = map (\<lambda>sent. length (ints_at h sent)) (self_data h self);
          sort_len = map (\<lambda>i. sents_len ! i) sort_idx;
          change_loc = change_loc_of sort_len
      in case batch_for_h h self sort_idx batch_size batch_first change_loc ([], 0, 0) of
           (Inl e, h1) \<Rightarrow> (Inl e, h1)
         | (Inr (batch_data_list, tot, cur), h1) \<Rightarrow>
             if tot = length (self_data h self) then (Inr batch_data_list, h1)
             else (Inl (AssertionError 198), h1))"

text \<open>A call of one of the three batching methods, and a series of such calls.\<close>

datatype batching_call =
    Data_iter int bool bool "nat list"
  | Create_data_batch int bool "nat list"
  | Data_sample int bool bool "nat list"

fun call_h :: "store \<Rightarrow> nat \<Rightarrow> batching_call \<Rightarrow> store" where
  "call_h h self (Data_iter batch_size batch_first shuffle shuffled) =
     snd (data_iter_h h self batch_size batch_first shuffle shuffled)"
| "call_h h self (Create_data_batch batch_size batch_first sort_idx) =
     snd (create_data_batch_h h self batch_size batch_first sort_idx)"
| "call_h h self (Data_sample nsample batch_first shuffle shuffled) =
     snd (data_sample_h h self nsample batch_first shuffle shuffled)"

fun calls_h :: "store \<Rightarrow> nat \<Rightarrow> batching_call list \<Rightarrow> store" where
  "calls_h h self [] = h"
| "calls_h h self (call # rest) = calls_h (call_h h self call) self rest"

section \<open>Dictionaries\<close>

lemma dict_set_keys: "fst ` set (dict_set d k v) = insert k (fst ` set d)"
  by (induction d) auto

lemma dict_get_set: "dict_get (dict_set d k v) k' = (if k' = k then Some v else dict_get d k')"
  by (induction d) (auto simp: dict_get_def)

lemma dict_get_None_iff: "dict_get d k = None \<longleftrightarrow> k \<notin> fst ` set d"
  by (simp add: dict_get_def map_of_eq_None_iff)

lemma dict_set_fresh: "k \<notin> fst ` set d \<Longrightarrow> dict_set d k v = d @ [(k, v)]"
  by (induction d) auto

lemma invert_items_keys_aux:
  "fst ` set (foldl (\<lambda>d kv. dict_set d (snd kv) (fst kv)) acc items) = fst ` set acc \<union> snd ` set items"
  by (induction items arbitrary: acc) (auto simp: dict_set_keys)

lemma invert_items_keys: "fst ` set (invert_items items) = snd ` set items"
  by (simp add: invert_items_def invert_items_keys_aux)


section \<open>The vocabulary\<close>

lemma reserved_word2id_eq:
  "reserved_word2id = [(''<pad>'', 0), (''<s>'', 1), (''</s>'', 2), (''<unk>'', 3)]"
  by (simp add: reserved_word2id_def)

lemma invert_reserved:
  "invert_items reserved_word2id = [(0, ''<pad>''), (1, ''<s>''), (2, ''</s>''), (3, ''<unk>'')]"
  unfolding reserved_word2id_eq invert_items_def by simp

lemma VocabEntry_init_None:
  "VocabEntry_init None =
     Inr \<lparr>word2id = [(''<pad>'', 0), (''<s>'', 1), (''</s>'', 2), (''<unk>'', 3)], unk_id = 3,
          id2word_dict = [(0, ''<pad>''), (1, ''<s>''), (2, ''</s>''), (3, ''<unk>'')]\<rparr>"
  by (simp only: VocabEntry_init_def invert_reserved option.case) (simp add: reserved_word2id_eq)

text \<open>
  C1 (the code departs from the claim).  On the fresh vocabulary \<open>VocabEntry()\<close> the word
  \<open>a\<close> is unknown and the size is 4.  The call \<open>add('a')\<close> does not return the id 4: it
  raises \<open>TypeError\<close>, having stored \<open>a \<mapsto> 4\<close> in the token-to-id dictionary only; the
  id-to-token dictionary is left as it was, so \<open>id2word(4)\<close> raises \<open>KeyError\<close> instead
  of giving \<open>a\<close> back.
\<close>

theorem add_unknown_raises_TypeError:
  "\<exists>v v'. VocabEntry_init None = Inr v \<and>
     \<not> VocabEntry_contains v ''a'' \<and> VocabEntry_len v = 4 \<and>
     VocabEntry_add v ''a'' = (Inl TypeError, v') \<and>
     word2id v' = word2id v @ [(''a'', 4)] \<and>
     id2word_dict v' = id2word_dict v \<and>
     VocabEntry_id2word v' 4 = Inl KeyError"
  by (simp add: VocabEntry_init_None VocabEntry_add_def VocabEntry_contains_def
      dict_contains_def dict_get_def VocabEntry_len_def VocabEntry_id2word_def Let_def)

text \<open>
  C5 (the code departs from the claim, through the defect of \<open>add\<close> shown for C1).  In the
  vocabulary that \<open>add('a')\<close> leaves behind, \<open>a\<close> is known (\<open>'a' in vocab\<close> holds and the
  lookup gives 4, not the unknown id 3), yet resolving the looked-up id raises \<open>KeyError\<close>:
  the round trip fails, and the id-to-token dictionary has 4 entries for a vocabulary of
  size 5, so it is not total over \<open>0..size-1\<close>.
\<close>

theorem round_trip_broken_after_add:
  "\<exists>v v'. VocabEntry_init None = Inr v \<and> v' = snd (VocabEntry_add v ''a'') \<and>
     VocabEntry_contains v' ''a'' \<and> VocabEntry_getitem v' ''a'' = 4 \<and> unk_id v' = 3 \<and>
     VocabEntry_id2word v' (VocabEntry_getitem v' ''a'') = Inl KeyError \<and>
     VocabEntry_len v' = 5 \<and> length (id2word_dict v') = 4"
  by (simp add: VocabEntry_init_None VocabEntry_add_def VocabEntry_contains_def
      dict_contains_def dict_get_def VocabEntry_len_def VocabEntry_id2word_def Let_def
      VocabEntry_getitem_def)

lemma add_word2id_values:
  "snd ` set (word2id v) \<subseteq> snd ` set (word2id (snd (VocabEntry_add v w)))"
  by (auto simp: VocabEntry_add_def Let_def VocabEntry_contains_def dict_contains_def
      dict_get_None_iff dict_set_fresh)

lemma add_id2word_dict: "id2word_dict (snd (VocabEntry_add v w)) = id2word_dict v"
  by (simp add: VocabEntry_add_def Let_def)

lemma init_inverse_keys:
  "VocabEntry_init arg = Inr v \<Longrightarrow> fst ` set (id2word_dict v) = snd ` set (word2id v)"
proof -
  assume "VocabEntry_init arg = Inr v"
  then have "id2word_dict v = invert_items (word2id v)"
    by (auto simp: VocabEntry_init_def split: option.splits if_splits)
  then show ?thesis by (simp add: invert_items_keys)
qed

lemma init_unk:
  "VocabEntry_init arg = Inr v \<Longrightarrow> dict_get (word2id v) ''<unk>'' = Some (unk_id v)"
  by (auto simp: VocabEntry_init_def reserved_word2id_eq dict_get_def split: option.splits if_splits)

lemma vocab_state_inverse_keys:
  "vocab_state v \<Longrightarrow> fst ` set (id2word_dict v) \<subseteq> snd ` set (word2id v)"
proof (induction rule: vocab_state.induct)
  case (constructed arg v)
  then show ?case by (simp add: init_inverse_keys)
next
  case (added v w)
  then show ?case using add_word2id_values [of v w] by (auto simp: add_id2word_dict)
qed

lemma vocab_state_unk:
  "vocab_state v \<Longrightarrow> dict_get (word2id v) ''<unk>'' = Some (unk_id v)"
proof (induction rule: vocab_state.induct)
  case (constructed arg v)
  then show ?case by (rule init_unk)
next
  case (added v w)
  then show ?case
    by (auto simp: VocabEntry_add_def Let_def dict_get_set VocabEntry_contains_def dict_contains_def)
qed

text \<open>
  C8.  \<open>__getitem__\<close> and \<open>__contains__\<close> are a \<open>dict.get\<close> with a default and a membership
  test, which raise nothing on a string: they are total functions of the model.  In every
  state of a vocabulary (constructed, then any calls of \<open>add\<close>), \<open>contains\<close> holds exactly
  of the keys of the token-to-id dictionary, the lookup of a known token is its stored id,
  the lookup of an unknown token falls back to the unknown id, which is the id stored for
  \<open><unk>\<close>, and \<open>id2word\<close> of an id that no token was ever given raises \<open>KeyError\<close> (a
  \<open>LookupError\<close>).
\<close>

theorem lookup_total_id2word_strict:
  assumes "vocab_state v"
  shows "(VocabEntry_contains v t \<longleftrightarrow> t \<in> fst ` set (word2id v)) \<and>
         (VocabEntry_contains v t \<longrightarrow> (t, VocabEntry_getitem v t) \<in> set (word2id v)) \<and>
         (\<not> VocabEntry_contains v t \<longrightarrow>
            VocabEntry_getitem v t = unk_id v \<and> VocabEntry_getitem v ''<unk>'' = unk_id v) \<and>
         (i \<notin> snd ` set (word2id v) \<longrightarrow> VocabEntry_id2word v i = Inl KeyError)"
proof -
  have c: "VocabEntry_contains v t \<longleftrightarrow> t \<in> fst ` set (word2id v)"
    by (simp add: VocabEntry_contains_def dict_contains_def dict_get_None_iff)
  have k: "VocabEntry_contains v t \<longrightarrow> (t, VocabEntry_getitem v t) \<in> set (word2id v)"
    by (auto simp: VocabEntry_contains_def dict_contains_def VocabEntry_getitem_def dict_get_def
        dest: map_of_SomeD)
  have u: "\<not> VocabEntry_contains v t \<longrightarrow>
            VocabEntry_getitem v t = unk_id v \<and> VocabEntry_getitem v ''<unk>'' = unk_id v"
    using vocab_state_unk [OF assms]
    by (simp add: VocabEntry_contains_def dict_contains_def VocabEntry_getitem_def)
  have r: "i \<notin> snd ` set (word2id v) \<longrightarrow> VocabEntry_id2word v i = Inl KeyError"
  proof
    assume "i \<notin> snd ` set (word2id v)"
    with vocab_state_inverse_keys [OF assms] have "i \<notin> fst ` set (id2word_dict v)" by blast
    then have "dict_get (id2word_dict v) i = None" by (simp add: dict_get_None_iff)
    then show "VocabEntry_id2word v i = Inl KeyError" by (simp add: VocabEntry_id2word_def)
  qed
  from c k u r show ?thesis by blast
qed

theorem lookup_total_id2word_strict_witness:
  "vocab_state
     \<lparr>word2id = [(''<pad>'', 0), (''<s>'', 1), (''</s>'', 2), (''<unk>'', 3)], unk_id = 3,
      id2word_dict = [(0, ''<pad>''), (1, ''<s>''), (2, ''</s>''), (3, ''<unk>'')]\<rparr> \<and>
   \<not> VocabEntry_contains
     \<lparr>word2id = [(''<pad>'', 0), (''<s>'', 1), (''</s>'', 2), (''<unk>'', 3)], unk_id = 3,
      id2word_dict = [(0, ''<pad>''), (1, ''<s>''), (2, ''</s>''), (3, ''<unk>'')]\<rparr> ''zebra'' \<and>
   VocabEntry_getitem
     \<lparr>word2id = [(''<pad>'', 0), (''<s>'', 1), (''</s>'', 2), (''<unk>'', 3)], unk_id = 3,
      id2word_dict = [(0, ''<pad>''), (1, ''<s>''), (2, ''</s>''), (3, ''<unk>'')]\<rparr> ''zebra'' = 3 \<and>
   VocabEntry_contains
     \<lparr>word2id = [(''<pad>'', 0), (''<s>'', 1), (''</s>'', 2), (''<unk>'', 3)], unk_id = 3,
      id2word_dict = [(0, ''<pad>''), (1, ''<s>''), (2, ''</s>''), (3, ''<unk>'')]\<rparr> ''<s>'' \<and>
   (''<s>'', VocabEntry_getitem
     \<lparr>word2id = [(''<pad>'', 0), (''<s>'', 1), (''</s>'', 2), (''<unk>'', 3)], unk_id = 3,
      id2word_dict = [(0, ''<pad>''), (1, ''<s>''), (2, ''</s>''), (3, ''<unk>'')]\<rparr> ''<s>'')
     \<in> set [(''<pad>'', 0), (''<s>'', 1), (''</s>'', 2), (''<unk>'', 3)] \<and>
   VocabEntry_id2word
     \<lparr>word2id = [(''<pad>'', 0), (''<s>'', 1), (''</s>'', 2), (''<unk>'', 3)], unk_id = 3,
      id2word_dict = [(0, ''<pad>''), (1, ''<s>''), (2, ''</s>''), (3, ''<unk>'')]\<rparr> 7 = Inl KeyError"
proof -
  define V where "V = \<lparr>word2id = [(''<pad>'', 0), (''<s>'', 1), (''</s>'', 2), (''<unk>'', 3::int)],
      unk_id = 3, id2word_dict = [(0::int, ''<pad>''), (1, ''<s>''), (2, ''</s>''), (3, ''<unk>'')]\<rparr>"
  have st: "vocab_state V"
    unfolding V_def by (rule vocab_state.constructed [of None]) (rule VocabEntry_init_None)
  have nc: "\<not> VocabEntry_contains V ''zebra''"
    by (simp add: V_def VocabEntry_contains_def dict_contains_def dict_get_def)
  have c: "VocabEntry_contains V ''<s>''"
    by (simp add: V_def VocabEntry_contains_def dict_contains_def dict_get_def)
  have i: "7 \<notin> snd ` set (word2id V)" by (simp add: V_def)
  have u: "unk_id V = 3" by (simp add: V_def)
  from lookup_total_id2word_strict [OF st, of "''zebra''" 7]
       lookup_total_id2word_strict [OF st, of "''<s>''" 7] st nc c i u
  have "vocab_state V \<and> \<not> VocabEntry_contains V ''zebra'' \<and> VocabEntry_getitem V ''zebra'' = 3 \<and>
        VocabEntry_contains V ''<s>'' \<and> (''<s>'', VocabEntry_getitem V ''<s>'') \<in> set (word2id V) \<and>
        VocabEntry_id2word V 7 = Inl KeyError"
    by simp
  then show ?thesis by (simp add: V_def)
qed

section \<open>Reading the corpus\<close>

lemma vocab_getitem_spec:
  "vocab_getitem vo w = (i, vo') \<Longrightarrow> vo_extends vo vo' \<and> vo_known vo' w \<and> i = vo_get vo' w"
proof (cases vo)
  case (DefaultDict d)
  assume a: "vocab_getitem vo w = (i, vo')"
  show ?thesis
  proof (cases "dict_get d w")
    case None
    then have fresh: "w \<notin> fst ` set d" by (simp add: dict_get_None_iff)
    from a None DefaultDict have vo': "vo' = DefaultDict (dict_set d w (int (length d)))"
      and i: "i = int (length d)" by auto
    have "vo_extends vo vo'" using None by (auto simp: DefaultDict vo' dict_get_set)
    then show ?thesis by (simp add: vo' i dict_contains_def dict_get_set)
  next
    case (Some j)
    with a DefaultDict show ?thesis by (auto simp: dict_contains_def)
  qed
next
  case (Entry v)
  assume "vocab_getitem vo w = (i, vo')"
  with Entry show ?thesis by auto
qed

lemma vo_extends_refl: "vo_extends vo vo"
  by (cases vo) auto

lemma vo_extends_trans: "vo_extends a b \<Longrightarrow> vo_extends b c \<Longrightarrow> vo_extends a c"
  by (cases a; cases b; cases c) auto

lemma vo_extends_known:
  "vo_extends a b \<Longrightarrow> vo_known a w \<Longrightarrow> vo_known b w \<and> vo_get b w = vo_get a w"
  by (cases a; cases b) (auto simp: dict_contains_def)

lemma lookup_words_spec:
  "lookup_words vo ws = (ids, vo') \<Longrightarrow>
     vo_extends vo vo' \<and> (\<forall>w \<in> set ws. vo_known vo' w) \<and> ids = map (vo_get vo') ws"
proof (induction ws arbitrary: vo ids vo')
  case Nil
  then show ?case by (simp add: vo_extends_refl)
next
  case (Cons w ws)
  obtain i vo1 where g: "vocab_getitem vo w = (i, vo1)" by (cases "vocab_getitem vo w")
  obtain ids' vo2 where l: "lookup_words vo1 ws = (ids', vo2)" by (cases "lookup_words vo1 ws")
  from Cons.prems g l have r: "ids = i # ids'" "vo' = vo2" by auto
  from vocab_getitem_spec [OF g] have g': "vo_extends vo vo1" "vo_known vo1 w" "i = vo_get vo1 w"
    by auto
  from Cons.IH [OF l] have l': "vo_extends vo1 vo2" "\<forall>w \<in> set ws. vo_known vo2 w"
    "ids' = map (vo_get vo2) ws" by auto
  from vo_extends_known [OF l'(1) g'(2)] have k: "vo_known vo2 w" "vo_get vo2 w = vo_get vo1 w"
    by auto
  show ?case using vo_extends_trans [OF g'(1) l'(1)] l' k g'(3) by (simp add: r)
qed

lemma read_lines_spec:
  "read_lines ml lines dat vo n = (dat', vo', n') \<Longrightarrow>
     vo_extends vo vo' \<and>
     n' = n + length (filter (line_dropped ml) lines) \<and>
     (\<forall>l \<in> set lines. \<not> line_dropped ml l \<longrightarrow> (\<forall>w \<in> set (str_split l). vo_known vo' w)) \<and>
     dat' = dat @ map (\<lambda>l. map (vo_get vo') (str_split l))
                    (filter (\<lambda>l. \<not> line_dropped ml l) lines)"
proof (induction lines arbitrary: dat vo n)
  case Nil
  then show ?case by (simp add: vo_extends_refl)
next
  case (Cons line rest)
  show ?case
  proof (cases "line_dropped ml line")
    case True
    then have "read_lines ml (line # rest) dat vo n = read_lines ml rest dat vo (n + 1)"
      by (auto simp: line_dropped_def Let_def)
    with Cons.prems have "read_lines ml rest dat vo (n + 1) = (dat', vo', n')" by simp
    from Cons.IH [OF this] True show ?thesis by simp
  next
    case False
    obtain ids vo1 where l: "lookup_words vo (str_split line) = (ids, vo1)"
      by (cases "lookup_words vo (str_split line)")
    from False l have "read_lines ml (line # rest) dat vo n = read_lines ml rest (dat @ [ids]) vo1 n"
      by (auto simp: line_dropped_def Let_def)
    with Cons.prems have "read_lines ml rest (dat @ [ids]) vo1 n = (dat', vo', n')" by simp
    from Cons.IH [OF this] have ih: "vo_extends vo1 vo'"
      "n' = n + length (filter (line_dropped ml) rest)"
      "\<forall>l \<in> set rest. \<not> line_dropped ml l \<longrightarrow> (\<forall>w \<in> set (str_split l). vo_known vo' w)"
      "dat' = (dat @ [ids]) @ map (\<lambda>l. map (vo_get vo') (str_split l))
                    (filter (\<lambda>l. \<not> line_dropped ml l) rest)" by auto
    from lookup_words_spec [OF l] have ls: "vo_extends vo vo1"
      "\<forall>w \<in> set (str_split line). vo_known vo1 w" "ids = map (vo_get vo1) (str_split line)"
      by auto
    have k: "\<forall>w \<in> set (str_split line). vo_known vo' w \<and> vo_get vo' w = vo_get vo1 w"
      using ls(2) vo_extends_known [OF ih(1)] by blast
    then have ids: "ids = map (vo_get vo') (str_split line)" using ls(3) by simp
    show ?thesis
      using vo_extends_trans [OF ls(1) ih(1)] ih(2) ih(3) k False
      by (simp add: ih(4) ids)
  qed
qed

lemma read_corpus_spec:
  "\<exists>d v n. read_corpus lines ml vopt = Inr (d, v, n) \<and>
     d = map (\<lambda>l. map (VocabEntry_getitem v) (str_split l))
           (filter (\<lambda>l. \<not> line_dropped ml l) lines) \<and>
     n = length (filter (line_dropped ml) lines)"
proof -
  define vocab0 where "vocab0 =
        (case vopt of
           None \<Rightarrow> DefaultDict reserved_word2id
         | Some v \<Rightarrow> if VocabEntry_len v = 0 then DefaultDict reserved_word2id else Entry v)"
  obtain d vo' n where r: "read_lines ml lines [] vocab0 0 = (d, vo', n)"
    by (cases "read_lines ml lines [] vocab0 0")
  from read_lines_spec [OF r] have s: "vo_extends vocab0 vo'"
    "n = length (filter (line_dropped ml) lines)"
    "d = map (\<lambda>l. map (vo_get vo') (str_split l)) (filter (\<lambda>l. \<not> line_dropped ml l) lines)"
    by auto
  show ?thesis
  proof (cases vo')
    case (Entry v)
    with r have "read_corpus lines ml vopt = Inr (d, v, n)"
      by (simp add: read_corpus_def vocab0_def [symmetric])
    moreover have "vo_get vo' = VocabEntry_getitem v" using Entry by (simp add: fun_eq_iff)
    ultimately show ?thesis using s by simp
  next
    case (DefaultDict d')
    with s(1) have v0: "vocab0 = DefaultDict reserved_word2id"
      by (cases vopt) (auto simp: vocab0_def split: if_splits)
    have "dict_get reserved_word2id ''<unk>'' = Some 3"
      by (simp add: reserved_word2id_eq dict_get_def)
    with s(1) have u: "dict_get d' ''<unk>'' = Some 3" by (simp add: v0 DefaultDict)
    then have ne: "d' \<noteq> []" by (auto simp: dict_get_def)
    define v where "v = \<lparr>word2id = d', unk_id = 3, id2word_dict = invert_items d'\<rparr>"
    have i: "VocabEntry_init (Some d') = Inr v"
      using u ne by (simp add: VocabEntry_init_def v_def)
    with r DefaultDict have "read_corpus lines ml vopt = Inr (d, v, n)"
      by (simp add: read_corpus_def vocab0_def [symmetric])
    moreover have "vo_get vo' = VocabEntry_getitem v"
      by (simp add: fun_eq_iff DefaultDict v_def VocabEntry_getitem_def split: option.splits)
    ultimately show ?thesis using s by simp
  qed
qed

lemma line_dropped_iff:
  "line_dropped ml l \<longleftrightarrow>
     (str_split l = [] \<or> (\<exists>m. ml = Some m \<and> m \<noteq> 0 \<and> int (length (str_split l)) > m))"
  by (auto simp: line_dropped_def over_length_def split: option.splits)

lemma str_split_examples:
  "str_split ''a'' = [''a'']"
  "str_split ''a b'' = [''a'', ''b'']"
  "str_split '''' = []"
  "str_split ''a b c d e'' = [''a'', ''b'', ''c'', ''d'', ''e'']"
  "str_split ''c'' = [''c'']"
  "str_split ''d e'' = [''d'', ''e'']"
  by (simp_all add: str_split_def isspace_def)

lemma read_corpus_one:
  "read_corpus [''a''] (Some 0) None =
     Inr ([[4]], \<lparr>word2id = [(''<pad>'', 0), (''<s>'', 1), (''</s>'', 2), (''<unk>'', 3), (''a'', 4)],
           unk_id = 3,
           id2word_dict = [(0, ''<pad>''), (1, ''<s>''), (2, ''</s>''), (3, ''<unk>''), (4, ''a'')]\<rparr>, 0)"
    by (simp add: read_corpus_def str_split_examples reserved_word2id_eq over_length_def
      dict_get_def VocabEntry_init_def invert_items_def)

lemma read_corpus_five_lines:
  "read_corpus [''a b'', '''', ''a b c d e'', ''c'', ''d e''] None None =
     Inr ([[4, 5], [4, 5, 6, 7, 8], [6], [7, 8]],
          \<lparr>word2id = [(''<pad>'', 0), (''<s>'', 1), (''</s>'', 2), (''<unk>'', 3),
                      (''a'', 4), (''b'', 5), (''c'', 6), (''d'', 7), (''e'', 8)],
           unk_id = 3,
           id2word_dict = [(0, ''<pad>''), (1, ''<s>''), (2, ''</s>''), (3, ''<unk>''),
                      (4, ''a''), (5, ''b''), (6, ''c''), (7, ''d''), (8, ''e'')]\<rparr>, 1)"
  by (simp add: read_corpus_def str_split_examples reserved_word2id_eq over_length_def
      dict_get_def VocabEntry_init_def invert_items_def)

text \<open>
  C7, as amended.  For every file, every \<open>max_length\<close> and either way of supplying the
  vocabulary, \<open>_read_corpus\<close> returns, and a line is dropped exactly when it has no token,
  or \<open>max_length\<close> is a non-zero integer that the line's token count exceeds.  The
  sequences are the kept lines in file order, every token resolved to the id the returned
  vocabulary gives it, and the drop count is the number of dropped lines.  In particular a
  five-line file with one blank line and \<open>max_length = None\<close> gives four sequences and a
  drop count of one.
\<close>

theorem corpus_lines_dropped:
  "\<exists>d v n. read_corpus lines max_length vopt = Inr (d, v, n) \<and>
     d = map (\<lambda>l. map (VocabEntry_getitem v) (str_split l))
           (filter (\<lambda>l. \<not> (str_split l = [] \<or>
              (\<exists>m. max_length = Some m \<and> m \<noteq> 0 \<and> int (length (str_split l)) > m))) lines) \<and>
     n = length (filter (\<lambda>l. str_split l = [] \<or>
              (\<exists>m. max_length = Some m \<and> m \<noteq> 0 \<and> int (length (str_split l)) > m)) lines) \<and>
     (max_length = None \<and> length lines = 5 \<and> length (filter (\<lambda>l. str_split l = []) lines) = 1
        \<longrightarrow> length d = 4 \<and> n = 1)"
proof -
  from read_corpus_spec [of lines max_length vopt] obtain d v n where
    r: "read_corpus lines max_length vopt = Inr (d, v, n)"
    and d: "d = map (\<lambda>l. map (VocabEntry_getitem v) (str_split l))
           (filter (\<lambda>l. \<not> line_dropped max_length l) lines)"
    and n: "n = length (filter (line_dropped max_length) lines)" by blast
  have five: "length d = 4 \<and> n = 1"
    if "max_length = None" "length lines = 5" "length (filter (\<lambda>l. str_split l = []) lines) = 1"
  proof -
    from that(1) have e: "line_dropped max_length = (\<lambda>l. str_split l = [])"
      by (simp add: fun_eq_iff line_dropped_iff)
    have "length (filter (\<lambda>l. \<not> str_split l = []) lines) + length (filter (\<lambda>l. str_split l = []) lines)
            = length lines"
      using sum_length_filter_compl [of "\<lambda>l. str_split l = []" lines] by simp
    with that(2,3) have "length (filter (\<lambda>l. \<not> str_split l = []) lines) = 4" by simp
    then show ?thesis using that(3) by (simp add: d n e)
  qed
  have d': "d = map (\<lambda>l. map (VocabEntry_getitem v) (str_split l))
           (filter (\<lambda>l. \<not> (str_split l = [] \<or>
              (\<exists>m. max_length = Some m \<and> m \<noteq> 0 \<and> int (length (str_split l)) > m))) lines)"
    using d unfolding line_dropped_iff .
  have n': "n = length (filter (\<lambda>l. str_split l = [] \<or>
              (\<exists>m. max_length = Some m \<and> m \<noteq> 0 \<and> int (length (str_split l)) > m)) lines)"
    using n unfolding line_dropped_iff [abs_def] .
  from five have five': "max_length = None \<and> length lines = 5 \<and>
        length (filter (\<lambda>l. str_split l = []) lines) = 1 \<longrightarrow> length d = 4 \<and> n = 1"
    by blast
  show ?thesis
    by (rule exI [of _ d], rule exI [of _ v], rule exI [of _ n])
       (rule conjI [OF r conjI [OF d' conjI [OF n' five']]])
qed

theorem corpus_lines_dropped_witness:
  "\<exists>d v n. read_corpus [''a b'', '''', ''a b c d e'', ''c'', ''d e''] None None = Inr (d, v, n) \<and>
     d = [[4, 5], [4, 5, 6, 7, 8], [6], [7, 8]] \<and> length d = 4 \<and> n = 1"
proof -
  have h: "(None :: int option) = None \<and>
      length [''a b'', '''', ''a b c d e'', ''c'', ''d e''] = 5 \<and>
      length (filter (\<lambda>l. str_split l = []) [''a b'', '''', ''a b c d e'', ''c'', ''d e'']) = 1"
    by (simp add: str_split_examples)
  from corpus_lines_dropped [of "[''a b'', '''', ''a b c d e'', ''c'', ''d e'']" None None]
  obtain d v n where
    r: "read_corpus [''a b'', '''', ''a b c d e'', ''c'', ''d e''] None None = Inr (d, v, n)"
    and i: "(None :: int option) = None \<and>
      length [''a b'', '''', ''a b c d e'', ''c'', ''d e''] = 5 \<and>
      length (filter (\<lambda>l. str_split l = []) [''a b'', '''', ''a b c d e'', ''c'', ''d e'']) = 1
      \<longrightarrow> length d = 4 \<and> n = 1"
    by (elim exE conjE) (rule that)
  from i h have l: "length d = 4 \<and> n = 1" by (rule mp)
  from r have d: "d = [[4, 5], [4, 5, 6, 7, 8], [6], [7, 8]]"
    by (simp add: read_corpus_five_lines)
  show ?thesis
    by (rule exI [of _ d], rule exI [of _ v], rule exI [of _ n])
       (rule conjI [OF r conjI [OF d l]])
qed

text \<open>
  C7 as the claim states it (a line is dropped when \<open>max_length\<close> is set and exceeded)
  fails for \<open>max_length = 0\<close>: the one-token line \<open>a\<close> exceeds 0 but is kept, because the
  guard \<open>if max_length:\<close> is false for 0.
\<close>

theorem zero_max_length_counterexample:
  "\<not> (\<forall>lines max_length vopt d v n.
        read_corpus lines max_length vopt = Inr (d, v, n) \<longrightarrow>
        n = length (filter (\<lambda>l. str_split l = [] \<or>
              (\<exists>m. max_length = Some m \<and> int (length (str_split l)) > m)) lines))"
proof
  assume a: "\<forall>lines max_length vopt d v n.
        read_corpus lines max_length vopt = Inr (d, v, n) \<longrightarrow>
        n = length (filter (\<lambda>l. str_split l = [] \<or>
              (\<exists>m. max_length = Some m \<and> int (length (str_split l)) > m)) lines)"
  from a [rule_format, OF read_corpus_one]
  have "(0::nat) = length (filter (\<lambda>l. str_split l = [] \<or>
              (\<exists>m. Some (0::int) = Some m \<and> int (length (str_split l)) > m)) [''a''])" .
  then show False by (simp add: str_split_examples)
qed

text \<open>
  C10.  With \<open>max_length\<close> equal to \<open>None\<close> or to 0 the length test is off: the dropped
  lines are exactly the lines without a token, and every other line, whatever its length,
  becomes a sequence.
\<close>

theorem falsy_max_length_keeps_long_lines:
  assumes "max_length = None \<or> max_length = Some 0"
  shows "\<exists>d v n. read_corpus lines max_length vopt = Inr (d, v, n) \<and>
     d = map (\<lambda>l. map (VocabEntry_getitem v) (str_split l))
           (filter (\<lambda>l. str_split l \<noteq> []) lines) \<and>
     n = length (filter (\<lambda>l. str_split l = []) lines)"
proof -
  from assms have e: "line_dropped max_length = (\<lambda>l. str_split l = [])"
    by (auto simp: fun_eq_iff line_dropped_iff)
  from read_corpus_spec [of lines max_length vopt] show ?thesis by (simp add: e)
qed

theorem falsy_max_length_keeps_long_lines_witness:
  "\<exists>d v n. read_corpus [''a b c d e'', '''', ''a''] (Some 0) None = Inr (d, v, n) \<and>
     d = map (\<lambda>l. map (VocabEntry_getitem v) (str_split l)) [''a b c d e'', ''a''] \<and>
     length d = 2 \<and> length (hd d) = 5 \<and> n = 1"
proof -
  have h: "Some (0::int) = None \<or> Some (0::int) = Some 0" by simp
  from falsy_max_length_keeps_long_lines [OF h, of "[''a b c d e'', '''', ''a'']" None]
  obtain d v n where
    r: "read_corpus [''a b c d e'', '''', ''a''] (Some 0) None = Inr (d, v, n)"
    and d: "d = map (\<lambda>l. map (VocabEntry_getitem v) (str_split l))
           (filter (\<lambda>l. str_split l \<noteq> []) [''a b c d e'', '''', ''a''])"
    and n: "n = length (filter (\<lambda>l. str_split l = []) [''a b c d e'', '''', ''a''])"
    by (elim exE conjE) (rule that)
  have f: "filter (\<lambda>l. str_split l \<noteq> []) [''a b c d e'', '''', ''a''] = [''a b c d e'', ''a'']"
    by (simp add: str_split_examples)
  have d': "d = map (\<lambda>l. map (VocabEntry_getitem v) (str_split l)) [''a b c d e'', ''a'']"
    using d unfolding f .
  have l: "length d = 2 \<and> length (hd d) = 5 \<and> n = 1"
    by (simp add: d' n str_split_examples)
  show ?thesis
    by (rule exI [of _ d], rule exI [of _ v], rule exI [of _ n])
       (rule conjI [OF r conjI [OF d' l]])
qed

section \<open>The padding primitive\<close>

lemma to_tensor_time_major:
  assumes "batch \<noteq> []"
  shows "to_tensor v batch False =
     Inr (replicate (length batch) (VocabEntry_getitem v ''<s>'') #
          map (\<lambda>i. map (\<lambda>sent. if length sent > i then sent ! i
                                else VocabEntry_getitem v ''<pad>'')
                        (map (\<lambda>sent. sent @ [VocabEntry_getitem v ''</s>'']) batch))
              [0..<Max ((\<lambda>s. length s + 1) ` set batch)],
          map (\<lambda>s. length s + 2) batch)"
proof -
  from assms obtain b bs where b: "batch = b # bs" by (cases batch) auto
  have m: "fold max (map (\<lambda>s. Suc (length s)) bs) (Suc (length b)) =
        Max ((\<lambda>s. length s + 1) ` set batch)"
    using Max.set_eq_fold [of "Suc (length b)" "map (\<lambda>s. Suc (length s)) bs"]
    by (simp add: b)
  show ?thesis
    unfolding to_tensor_def stack_rows_def Let_def
    by (simp add: b m [unfolded b] comp_def)
qed

text \<open>
  C4.  For a non-empty batch and \<open>batch_first = False\<close>, \<open>_to_tensor\<close> returns a tensor of
  \<open>L + 1\<close> rows of \<open>batch_size\<close> ids each, where \<open>L\<close> is the greatest length after the
  stop symbol.  Row 0 is the start id repeated; for a sentence \<open>i\<close> and a row \<open>t\<close> from 1
  to \<open>L\<close> the id is the sentence's token at offset \<open>t - 1\<close>, the stop id right after its
  last token, and the pad id after that.  The reported length of a sentence is its token
  count plus two, and the stop id sits in the row numbered by that length minus one.
\<close>

theorem padding_time_major:
  assumes "batch \<noteq> []"
  shows "\<exists>ts lens. to_tensor v batch False = Inr (ts, lens) \<and>
     length ts = Max ((\<lambda>s. length s + 1) ` set batch) + 1 \<and>
     (\<forall>row \<in> set ts. length row = length batch) \<and>
     ts ! 0 = replicate (length batch) (VocabEntry_getitem v ''<s>'') \<and>
     (\<forall>i < length batch. \<forall>t. 1 \<le> t \<and> t \<le> Max ((\<lambda>s. length s + 1) ` set batch) \<longrightarrow>
        ts ! t ! i =
          (if t - 1 < length (batch ! i) then batch ! i ! (t - 1)
           else if t - 1 = length (batch ! i) then VocabEntry_getitem v ''</s>''
           else VocabEntry_getitem v ''<pad>'')) \<and>
     (\<forall>i < length batch. lens ! i = length (batch ! i) + 2 \<and>
        lens ! i - 1 \<le> Max ((\<lambda>s. length s + 1) ` set batch) \<and>
        ts ! (lens ! i - 1) ! i = VocabEntry_getitem v ''</s>'') \<and>
     length lens = length batch"
proof -
  define L where "L = Max ((\<lambda>s. length s + 1) ` set batch)"
  define eos where "eos = VocabEntry_getitem v ''</s>''"
  define pad where "pad = VocabEntry_getitem v ''<pad>''"
  define ts where "ts = replicate (length batch) (VocabEntry_getitem v ''<s>'') #
          map (\<lambda>i. map (\<lambda>sent. if length sent > i then sent ! i else pad)
                        (map (\<lambda>sent. sent @ [eos]) batch)) [0..<L]"
  define lens where "lens = map (\<lambda>s. length s + 2) batch"
  have r: "to_tensor v batch False = Inr (ts, lens)"
    using to_tensor_time_major [OF assms, of v] by (simp add: ts_def lens_def L_def eos_def pad_def)
  have len: "length ts = L + 1" by (simp add: ts_def)
  have rows: "\<forall>row \<in> set ts. length row = length batch" by (auto simp: ts_def)
  have row0: "ts ! 0 = replicate (length batch) (VocabEntry_getitem v ''<s>'')"
    by (simp add: ts_def)
  have cell: "ts ! t ! i =
          (if t - 1 < length (batch ! i) then batch ! i ! (t - 1)
           else if t - 1 = length (batch ! i) then eos else pad)"
    if "i < length batch" "1 \<le> t" "t \<le> L" for i t
  proof -
    from that obtain k where k: "t = Suc k" "k < L" by (cases t) auto
    show ?thesis using that(1) k(2) by (auto simp: ts_def k(1) nth_append)
  qed
  have bound: "length (batch ! i) + 1 \<le> L" if "i < length batch" for i
    unfolding L_def using that by (intro Max_ge) auto
  have lens_i: "lens ! i = length (batch ! i) + 2 \<and> lens ! i - 1 \<le> L \<and>
        ts ! (lens ! i - 1) ! i = eos" if "i < length batch" for i
  proof -
    have l: "lens ! i = length (batch ! i) + 2" using that by (simp add: lens_def)
    have b: "lens ! i - 1 \<le> L" using bound [OF that] by (simp add: l)
    have "ts ! (length (batch ! i) + 1) ! i = eos"
      using cell [OF that, of "length (batch ! i) + 1"] bound [OF that] by simp
    then show ?thesis using l b by simp
  qed
  have ll: "length lens = length batch" by (simp add: lens_def)
  show ?thesis
    apply (rule exI [of _ ts], rule exI [of _ lens])
    unfolding L_def [symmetric] eos_def [symmetric] pad_def [symmetric]
    using r len rows row0 cell lens_i ll by blast
qed

lemma getitem_reserved:
  "VocabEntry_init None = Inr V \<Longrightarrow>
     VocabEntry_getitem V ''<pad>'' = 0 \<and> VocabEntry_getitem V ''<s>'' = 1 \<and>
     VocabEntry_getitem V ''</s>'' = 2 \<and> VocabEntry_getitem V ''<unk>'' = 3"
  by (auto simp: VocabEntry_init_None VocabEntry_getitem_def dict_get_def)

lemma to_tensor_example:
  assumes "VocabEntry_init None = Inr V"
  shows "to_tensor V [[4, 5], [6]] False = Inr ([[1, 1], [4, 6], [5, 2], [2, 0]], [4, 3])"
  using getitem_reserved [OF assms] by (simp add: to_tensor_def stack_rows_def)

theorem padding_time_major_witness:
  "\<exists>V ts lens. VocabEntry_init None = Inr V \<and>
     to_tensor V [[4, 5], [6]] False = Inr (ts, lens) \<and>
     ts = [[1, 1], [4, 6], [5, 2], [2, 0]] \<and> lens = [4, 3] \<and>
     length ts = Max ((\<lambda>s. length s + 1) ` set [[4, 5], [6 :: int]]) + 1 \<and>
     ts ! (lens ! 1 - 1) ! 1 = 2 \<and> ts ! 3 ! 1 = 0"
proof -
  obtain V where V: "VocabEntry_init None = Inr V" by (simp add: VocabEntry_init_None)
  have ne: "[[4, 5], [6 :: int]] \<noteq> []" by simp
  from padding_time_major [OF ne, of V] obtain ts lens where
    r: "to_tensor V [[4, 5], [6]] False = Inr (ts, lens)"
    and l: "length ts = Max ((\<lambda>s. length s + 1) ` set [[4, 5], [6 :: int]]) + 1"
    by (elim exE conjE) (rule that)
  from r have e: "ts = [[1, 1], [4, 6], [5, 2], [2, 0]]" "lens = [4, 3]"
    by (simp_all add: to_tensor_example [OF V])
  have c: "ts ! (lens ! 1 - 1) ! 1 = 2 \<and> ts ! 3 ! 1 = 0" by (simp add: e)
  show ?thesis
    by (rule exI [of _ V], rule exI [of _ ts], rule exI [of _ lens])
       (rule conjI [OF V conjI [OF r conjI [OF e(1) conjI [OF e(2) conjI [OF l c]]]]])
qed

section \<open>Shuffled iteration\<close>

lemma to_tensor_returns: "batch \<noteq> [] \<Longrightarrow> \<exists>r. to_tensor v batch bf = Inr r"
  by (cases batch) (auto simp: to_tensor_def stack_rows_def Let_def)

lemma iter_batches_count:
  assumes "0 < b" and "\<forall>i \<in> set is. i * b < length index_arr"
  shows "\<exists>rs. iter_batches dat v b bf index_arr is = Inr rs \<and> length rs = length is"
  using assms(2)
proof (induction "is")
  case Nil
  then show ?case by simp
next
  case (Cons i rest)
  from Cons.prems have "i * b < length index_arr" by simp
  with assms(1) have "take b (drop (i * b) index_arr) \<noteq> []" by simp
  then have "sort_key (\<lambda>e. - int (length e))
      (map (\<lambda>index. dat ! index) (take b (drop (i * b) index_arr))) \<noteq> []"
    by (metis length_0_conv length_map length_sort)
  from to_tensor_returns [OF this] obtain r where
    r: "to_tensor v (sort_key (\<lambda>e. - int (length e))
      (map (\<lambda>index. dat ! index) (take b (drop (i * b) index_arr)))) bf = Inr r" by blast
  from Cons.IH Cons.prems obtain rs where
    rs: "iter_batches dat v b bf index_arr rest = Inr rs" "length rs = length rest" by auto
  show ?case by (simp add: Let_def r rs)
qed

lemma data_iter_count:
  assumes "0 < batch_size"
  shows "\<exists>bs. data_iter c batch_size bf sh shuffled = Inr bs \<and>
     length bs = length (if sh then shuffled else [0..<length (data c)]) div nat batch_size"
proof -
  define arr where "arr = (if sh then shuffled else [0..<length (data c)])"
  define k where "k = length arr div nat batch_size"
  have bn: "batch_num_of (length arr) batch_size = Inr (int k)"
    using assms by (simp add: batch_num_of_def k_def zdiv_int nat_div_distrib)
  have "\<forall>i \<in> set [0..<k]. i * nat batch_size < length arr"
  proof
    fix i assume "i \<in> set [0..<k]"
    then have "Suc i \<le> k" by simp
    then have "Suc i * nat batch_size \<le> k * nat batch_size" by (rule mult_le_mono1)
    also have "\<dots> \<le> length arr" by (simp add: k_def)
    finally show "i * nat batch_size < length arr" using assms by simp
  qed
  with iter_batches_count [of "nat batch_size" "[0..<k]" arr "data c" "vocab c" bf] assms
  obtain rs where "iter_batches (data c) (vocab c) (nat batch_size) bf arr [0..<k] = Inr rs"
    "length rs = k" by auto
  then show ?thesis
    unfolding data_iter_def Let_def arr_def [symmetric] by (simp add: bn k_def)
qed

lemma str_split_more:
  "str_split ''b c'' = [''b'', ''c'']"
  "str_split ''d'' = [''d'']"
  "str_split ''b'' = [''b'']"
  by (simp_all add: str_split_def isspace_def)

lemma corpus_three:
  "MonoTextData_init [''a'', ''b c'', ''d''] None None =
     Inr \<lparr>data = [[4], [5, 6], [7]],
          vocab = \<lparr>word2id = [(''<pad>'', 0), (''<s>'', 1), (''</s>'', 2), (''<unk>'', 3),
                      (''a'', 4), (''b'', 5), (''c'', 6), (''d'', 7)],
           unk_id = 3,
           id2word_dict = [(0, ''<pad>''), (1, ''<s>''), (2, ''</s>''), (3, ''<unk>''),
                      (4, ''a''), (5, ''b''), (6, ''c''), (7, ''d'')]\<rparr>,
          dropped = 0\<rparr>"
  by (simp add: MonoTextData_init_def read_corpus_def str_split_examples str_split_more
      reserved_word2id_eq over_length_def dict_get_def VocabEntry_init_def invert_items_def)

text \<open>
  C2 (the code departs from the claim).  \<open>batch_num\<close> is
  \<open>int(np.ceil(len(index_arr)) / float(batch_size))\<close>: the ceiling is applied to the
  length, not to the quotient, so the number of batches is the quotient rounded down
  (\<open>data_iter_count\<close>).  On a corpus of three sequences with \<open>batch_size = 2\<close> the iteration
  yields one batch, not two, and one sequence index is in no batch: index 2 without
  shuffling, index 1 when the shuffled order is 2, 0, 1.
\<close>

theorem data_iter_drops_last_chunk:
  "\<exists>c. MonoTextData_init [''a'', ''b c'', ''d''] None None = Inr c \<and>
     data c = [[4], [5, 6], [7]] \<and>
     data_iter c 2 False False [] = Inr [([[1, 1], [5, 4], [6, 2], [2, 0]], [4, 3])] \<and>
     data_iter c 2 False True [2, 0, 1] = Inr [([[1, 1], [7, 4], [2, 2]], [3, 3])]"
  by (simp add: corpus_three data_iter_def batch_num_of_def to_tensor_def stack_rows_def
      VocabEntry_getitem_def dict_get_def)

section \<open>Length-bucketed batching\<close>

lemma corpus_one:
  "MonoTextData_init [''a''] None None =
     Inr \<lparr>data = [[4]],
          vocab = \<lparr>word2id = [(''<pad>'', 0), (''<s>'', 1), (''</s>'', 2), (''<unk>'', 3), (''a'', 4)],
           unk_id = 3,
           id2word_dict = [(0, ''<pad>''), (1, ''<s>''), (2, ''</s>''), (3, ''<unk>''), (4, ''a'')]\<rparr>,
          dropped = 0\<rparr>"
  by (simp add: MonoTextData_init_def read_corpus_def str_split_examples
      reserved_word2id_eq over_length_def dict_get_def VocabEntry_init_def invert_items_def)

text \<open>
  C3 (the code departs from the claim).  \<open>total\<close> grows by \<open>batch_data.size(0)\<close>, which
  is the number of sequences only when \<open>batch_first\<close> is true; for the default
  \<open>batch_first = False\<close> the tensor is time-major and \<open>size(0)\<close> is its number of rows.
  On the corpus of the single sequence \<open>[4]\<close> with \<open>batch_size = 1\<close> the one batch has
  three rows, \<open>total\<close> ends at 3, and the assertion \<open>total == len(self.data)\<close> of line 198
  fails; with \<open>batch_first = True\<close> the same call returns.
\<close>

theorem total_counts_rows_not_sequences:
  "\<exists>c. MonoTextData_init [''a''] None None = Inr c \<and> data c = [[4]] \<and>
     is_argsort (map length (data c)) [0] \<and>
     batch_passes c 1 False [0] =
       Inr ([\<lparr>sentences = [[4]], padded = [[1], [4], [2]], reported = [3]\<rparr>], 3, 1) \<and>
     create_data_batch c 1 False [0] = Inl (AssertionError 198) \<and>
     create_data_batch c 1 True [0] = Inr [[[1, 4, 2]]]"
  by (simp add: corpus_one is_argsort_def create_data_batch_def batch_passes_def
      change_loc_of_def to_tensor_def stack_rows_def VocabEntry_getitem_def dict_get_def size0_def
      permute10_def)

lemma to_tensor_reported:
  "to_tensor v batch bf = Inr (ts, lens) \<Longrightarrow> lens = map (\<lambda>s. length s + 2) batch"
  by (cases batch) (auto simp: to_tensor_def stack_rows_def Let_def)

lemma to_tensor_same_length:
  assumes "batch \<noteq> []" and "\<forall>s \<in> set batch. length s = n"
  shows "\<exists>ts. to_tensor v batch bf = Inr (ts, replicate (length batch) (n + 2))"
proof -
  from to_tensor_returns [OF assms(1), of v bf] obtain ts lens where
    r: "to_tensor v batch bf = Inr (ts, lens)" by fastforce
  from to_tensor_reported [OF r] assms(2) have "lens = replicate (length batch) (n + 2)"
    by (simp add: map_replicate_const [symmetric] cong: map_cong)
  with r show ?thesis by blast
qed

lemma batch_while_run:
  assumes b: "1 \<le> batch_size"
    and le: "cur \<le> idx"
    and run: "\<forall>j. cur \<le> j \<and> j < idx \<longrightarrow> length (dat ! (sort_idx ! j)) = n"
  shows "\<exists>new tot'.
     batch_while dat v sort_idx batch_size bf idx (passes, tot, cur) =
       Inr (passes @ new, tot', idx) \<and>
     (\<forall>p \<in> set new. sentences p \<noteq> [] \<and> (\<forall>s \<in> set (sentences p). length s = n) \<and>
        reported p = replicate (length (sentences p)) (n + 2) \<and>
        to_tensor v (sentences p) bf = Inr (padded p, reported p)) \<and>
     concat (map sentences new) = map (\<lambda>i. dat ! (sort_idx ! i)) [cur..<idx]"
  using le run
proof (induction "idx - cur" arbitrary: passes tot cur rule: less_induct)
  case less
  show ?case
  proof (cases "cur < idx")
    case False
    with less.prems have "cur = idx" by simp
    then show ?thesis by simp
  next
    case True
    define nxt where "nxt = min (int cur + batch_size) (int idx)"
    define batch where "batch = map (\<lambda>i. dat ! (sort_idx ! i)) [cur..<nat nxt]"
    from True b have nx: "cur < nat nxt" "nat nxt \<le> idx" by (auto simp: nxt_def)
    then have ne: "batch \<noteq> []" by (simp add: batch_def)
    have same: "\<forall>s \<in> set batch. length s = n"
      using less.prems(2) nx by (auto simp: batch_def)
    from to_tensor_same_length [OF ne same, of v bf] obtain ts where
      t: "to_tensor v batch bf = Inr (ts, replicate (length batch) (n + 2))" by blast
    from ne obtain k where k: "length batch = Suc k" by (cases batch) auto
    define p where "p = \<lparr>sentences = batch, padded = ts,
      reported = replicate (length batch) (n + 2)\<rparr>"
    have step: "batch_while dat v sort_idx batch_size bf idx (passes, tot, cur) =
       batch_while dat v sort_idx batch_size bf idx (passes @ [p], tot + size0 ts, nat nxt)"
      using True t
      by (subst batch_while.simps)
         (simp add: nxt_def [symmetric] batch_def [symmetric] Let_def k p_def
            del: batch_while.simps)
    have "idx - nat nxt < idx - cur" using nx True by simp
    moreover have "\<forall>j. nat nxt \<le> j \<and> j < idx \<longrightarrow> length (dat ! (sort_idx ! j)) = n"
      using less.prems(2) nx by auto
    ultimately obtain new tot' where
      ih: "batch_while dat v sort_idx batch_size bf idx (passes @ [p], tot + size0 ts, nat nxt) =
         Inr ((passes @ [p]) @ new, tot', idx)"
        "\<forall>p \<in> set new. sentences p \<noteq> [] \<and> (\<forall>s \<in> set (sentences p). length s = n) \<and>
          reported p = replicate (length (sentences p)) (n + 2) \<and>
          to_tensor v (sentences p) bf = Inr (padded p, reported p)"
        "concat (map sentences new) = map (\<lambda>i. dat ! (sort_idx ! i)) [nat nxt..<idx]"
      using less.hyps [of "nat nxt" "passes @ [p]" "tot + size0 ts"] nx(2) by blast
    have cat: "[cur..<idx] = [cur..<nat nxt] @ [nat nxt..<idx]"
      using nx by (metis le_add_diff_inverse less_imp_le_nat upt_add_eq_append)
    have pok: "sentences p \<noteq> [] \<and> (\<forall>s \<in> set (sentences p). length s = n) \<and>
          reported p = replicate (length (sentences p)) (n + 2) \<and>
          to_tensor v (sentences p) bf = Inr (padded p, reported p)"
      using ne same t by (simp add: p_def)
    show ?thesis
      apply (rule exI [of _ "p # new"], rule exI [of _ tot'])
      using step ih pok by (simp add: cat batch_def p_def del: batch_while.simps)
  qed
qed

lemma run_constant:
  fixes g :: "nat \<Rightarrow> nat"
  assumes "\<forall>j. cur < j \<and> j < idx \<longrightarrow> g j = g (j - 1)"
  shows "cur \<le> j \<Longrightarrow> j < idx \<Longrightarrow> g j = g cur"
proof (induction j)
  case 0
  then show ?case by simp
next
  case (Suc j)
  show ?case
  proof (cases "cur = Suc j")
    case True
    then show ?thesis by simp
  next
    case False
    with Suc.prems have "cur \<le> j" "j < idx" "cur < Suc j" by auto
    with Suc.IH assms Suc.prems show ?thesis by (metis diff_Suc_1)
  qed
qed

lemma batch_for_runs:
  assumes b: "1 \<le> batch_size"
  shows "sorted locs \<Longrightarrow> \<forall>x \<in> set locs. cur \<le> x \<Longrightarrow>
     \<forall>j. cur < j \<and> j \<notin> set locs \<and> (\<exists>x \<in> set locs. j < x) \<longrightarrow>
        length (dat ! (sort_idx ! j)) = length (dat ! (sort_idx ! (j - 1))) \<Longrightarrow>
     \<exists>new tot'.
       batch_for dat v sort_idx batch_size bf locs (passes, tot, cur) =
         Inr (passes @ new, tot', last (cur # locs)) \<and>
       (\<forall>p \<in> set new. \<exists>n. sentences p \<noteq> [] \<and> (\<forall>s \<in> set (sentences p). length s = n) \<and>
          reported p = replicate (length (sentences p)) (n + 2) \<and>
          to_tensor v (sentences p) bf = Inr (padded p, reported p)) \<and>
       concat (map sentences new) = map (\<lambda>i. dat ! (sort_idx ! i)) [cur..<last (cur # locs)]"
proof (induction locs arbitrary: passes tot cur)
  case Nil
  then show ?case by simp
next
  case (Cons idx rest)
  from Cons.prems have le: "cur \<le> idx" and srt: "sorted rest" and ge: "\<forall>x \<in> set rest. idx \<le> x"
    by auto
  define g where "g j = length (dat ! (sort_idx ! j))" for j
  have "\<forall>j. cur < j \<and> j < idx \<longrightarrow> g j = g (j - 1)"
  proof (intro allI impI)
    fix j assume j: "cur < j \<and> j < idx"
    with ge have "j \<notin> set (idx # rest)" by auto
    with j Cons.prems(3) show "g j = g (j - 1)" unfolding g_def by auto
  qed
  from run_constant [OF this]
  have run: "\<forall>j. cur \<le> j \<and> j < idx \<longrightarrow> length (dat ! (sort_idx ! j)) = g cur"
    unfolding g_def by blast
  from batch_while_run [OF b le run, of v bf passes tot] obtain new1 tot1 where
    w: "batch_while dat v sort_idx batch_size bf idx (passes, tot, cur) =
          Inr (passes @ new1, tot1, idx)"
       "\<forall>p \<in> set new1. sentences p \<noteq> [] \<and> (\<forall>s \<in> set (sentences p). length s = g cur) \<and>
          reported p = replicate (length (sentences p)) (g cur + 2) \<and>
          to_tensor v (sentences p) bf = Inr (padded p, reported p)"
       "concat (map sentences new1) = map (\<lambda>i. dat ! (sort_idx ! i)) [cur..<idx]"
    by blast
  have r3: "\<forall>j. idx < j \<and> j \<notin> set rest \<and> (\<exists>x \<in> set rest. j < x) \<longrightarrow>
        length (dat ! (sort_idx ! j)) = length (dat ! (sort_idx ! (j - 1)))"
    using Cons.prems(3) le by auto
  from Cons.IH [OF srt ge r3, of "passes @ new1" tot1] obtain new2 tot2 where
    f: "batch_for dat v sort_idx batch_size bf rest (passes @ new1, tot1, idx) =
          Inr ((passes @ new1) @ new2, tot2, last (idx # rest))"
       "\<forall>p \<in> set new2. \<exists>n. sentences p \<noteq> [] \<and> (\<forall>s \<in> set (sentences p). length s = n) \<and>
          reported p = replicate (length (sentences p)) (n + 2) \<and>
          to_tensor v (sentences p) bf = Inr (padded p, reported p)"
       "concat (map sentences new2) = map (\<lambda>i. dat ! (sort_idx ! i)) [idx..<last (idx # rest)]"
    by blast
  define e where "e = last (idx # rest)"
  have il: "idx \<le> e" unfolding e_def using ge by (cases rest) auto
  have e': "last (cur # idx # rest) = e" by (simp add: e_def)
  have cat: "[cur..<e] = [cur..<idx] @ [idx..<e]"
    using le il by (metis le_add_diff_inverse upt_add_eq_append)
  have ok: "\<forall>p \<in> set (new1 @ new2). \<exists>n. sentences p \<noteq> [] \<and>
          (\<forall>s \<in> set (sentences p). length s = n) \<and>
          reported p = replicate (length (sentences p)) (n + 2) \<and>
          to_tensor v (sentences p) bf = Inr (padded p, reported p)"
    using w(2) f(2) by auto
  have run: "batch_for dat v sort_idx batch_size bf (idx # rest) (passes, tot, cur) =
         Inr (passes @ new1 @ new2, tot2, e)"
    using w(1) f(1) by (simp add: e_def del: batch_while.simps last.simps)
  have cc: "concat (map sentences (new1 @ new2)) = map (\<lambda>i. dat ! (sort_idx ! i)) [cur..<e]"
    using w(3) f(3) by (simp add: cat e_def [symmetric] del: last.simps)
  show ?case
    unfolding e'
    by (rule exI [of _ "new1 @ new2"], rule exI [of _ tot2]) (rule conjI [OF run conjI [OF ok cc]])
qed

lemma change_loc_sorted: "sorted (change_loc_of sl)"
  by (auto simp: change_loc_of_def sorted_append intro: sorted_wrt_filter)

lemma change_loc_le: "x \<in> set (change_loc_of sl) \<Longrightarrow> x \<le> length sl"
  by (auto simp: change_loc_of_def)

lemma change_loc_last: "last (0 # change_loc_of sl) = length sl"
  by (simp add: change_loc_of_def)

lemma change_loc_between:
  assumes "0 < j" "j \<notin> set (change_loc_of sl)" "j < length sl"
  shows "sl ! j = sl ! (j - 1)"
  using assms by (auto simp: change_loc_of_def)

lemma argsort_valid:
  assumes "is_argsort lens sort_idx" "j < length sort_idx"
  shows "sort_idx ! j < length lens"
proof -
  from assms(2) have "sort_idx ! j \<in> set sort_idx" by simp
  with assms(1) show ?thesis by (simp add: is_argsort_def)
qed

lemma argsort_length:
  assumes "is_argsort lens sort_idx"
  shows "length sort_idx = length lens"
proof -
  from assms have "distinct sort_idx" "set sort_idx = {0..<length lens}"
    by (simp_all add: is_argsort_def)
  then show ?thesis by (metis card_atLeastLessThan diff_zero distinct_card)
qed

text \<open>
  C6.  For every corpus, every \<open>batch_size\<close> of at least one, either value of
  \<open>batch_first\<close> and every result of \<open>np.argsort\<close>, the two loops of
  \<open>create_data_batch\<close> run to their end: no pass fails the assertion of line 196.  In
  every pass the batch is not empty, its sentences all have one length \<open>n\<close>, and the
  reported lengths are all \<open>n + 2\<close>; the passes together hold the sequences of the
  corpus in the sorted order; and when \<open>create_data_batch\<close> returns, it returns the
  tensors of these passes.
\<close>

theorem buckets_have_one_length:
  assumes a: "is_argsort (map length (data c)) sort_idx" and b: "1 \<le> batch_size"
  shows "\<exists>passes tot cur.
     batch_passes c batch_size bf sort_idx = Inr (passes, tot, cur) \<and>
     (\<forall>p \<in> set passes. \<exists>n. sentences p \<noteq> [] \<and> (\<forall>s \<in> set (sentences p). length s = n) \<and>
        reported p = replicate (length (sentences p)) (n + 2) \<and>
        to_tensor (vocab c) (sentences p) bf = Inr (padded p, reported p)) \<and>
     concat (map sentences passes) = map (\<lambda>i. data c ! i) sort_idx \<and>
     create_data_batch c batch_size bf sort_idx \<noteq> Inl (AssertionError 196) \<and>
     (\<forall>ts. create_data_batch c batch_size bf sort_idx = Inr ts \<longrightarrow> ts = map padded passes)"
proof -
  define sl where "sl = map (\<lambda>i. map length (data c) ! i) sort_idx"
  define locs where "locs = change_loc_of sl"
  have n: "length sl = length sort_idx" by (simp add: sl_def)
  have slj: "sl ! j = length (data c ! (sort_idx ! j))" if "j < length sort_idx" for j
    using that argsort_valid [OF a that] by (simp add: sl_def)
  have run: "\<forall>j. 0 < j \<and> j \<notin> set locs \<and> (\<exists>x \<in> set locs. j < x) \<longrightarrow>
        length (data c ! (sort_idx ! j)) = length (data c ! (sort_idx ! (j - 1)))"
  proof (intro allI impI)
    fix j assume j: "0 < j \<and> j \<notin> set locs \<and> (\<exists>x \<in> set locs. j < x)"
    then obtain x where "x \<in> set locs" "j < x" by blast
    with change_loc_le [of x sl] have lt: "j < length sort_idx" by (simp add: locs_def n)
    then have lt': "j - 1 < length sort_idx" by simp
    from change_loc_between [of j sl] j lt have "sl ! j = sl ! (j - 1)" by (simp add: locs_def n)
    then show "length (data c ! (sort_idx ! j)) = length (data c ! (sort_idx ! (j - 1)))"
      unfolding slj [OF lt] slj [OF lt'] .
  qed
  have srt: "sorted locs" unfolding locs_def by (rule change_loc_sorted)
  have ge: "\<forall>x \<in> set locs. 0 \<le> x" by simp
  from batch_for_runs [OF b srt ge run, of "vocab c" bf "[]" 0] obtain passes tot where
    f: "batch_for (data c) (vocab c) sort_idx batch_size bf locs ([], 0, 0) =
          Inr (passes, tot, last (0 # locs))"
    and ok: "\<forall>p \<in> set passes. \<exists>n. sentences p \<noteq> [] \<and> (\<forall>s \<in> set (sentences p). length s = n) \<and>
        reported p = replicate (length (sentences p)) (n + 2) \<and>
        to_tensor (vocab c) (sentences p) bf = Inr (padded p, reported p)"
    and cc: "concat (map sentences passes) =
        map (\<lambda>i. data c ! (sort_idx ! i)) [0..<last (0 # locs)]"
    by auto
  have l: "last (0 # locs) = length sort_idx"
    unfolding locs_def change_loc_last by (rule n)
  have bp: "batch_passes c batch_size bf sort_idx = Inr (passes, tot, length sort_idx)"
    unfolding batch_passes_def Let_def sl_def [symmetric] locs_def [symmetric]
    using f unfolding l .
  have "map (\<lambda>i. data c ! (sort_idx ! i)) [0..<length sort_idx] =
        map (\<lambda>i. data c ! i) (map (\<lambda>i. sort_idx ! i) [0..<length sort_idx])"
    by simp
  also have "\<dots> = map (\<lambda>i. data c ! i) sort_idx" by (simp only: map_nth)
  finally have cc': "concat (map sentences passes) = map (\<lambda>i. data c ! i) sort_idx"
    using cc unfolding l by simp
  have ne: "create_data_batch c batch_size bf sort_idx \<noteq> Inl (AssertionError 196)"
    by (simp add: create_data_batch_def bp)
  have ret: "\<forall>ts. create_data_batch c batch_size bf sort_idx = Inr ts \<longrightarrow> ts = map padded passes"
    by (auto simp: create_data_batch_def bp split: if_splits)
  show ?thesis
    by (rule exI [of _ passes], rule exI [of _ tot], rule exI [of _ "length sort_idx"])
       (rule conjI [OF bp conjI [OF ok conjI [OF cc' conjI [OF ne ret]]]])
qed

lemma batch_passes_three_closed:
  "batch_passes \<lparr>data = [[4], [5, 6], [7]],
          vocab = \<lparr>word2id = [(''<pad>'', 0), (''<s>'', 1), (''</s>'', 2), (''<unk>'', 3),
                      (''a'', 4), (''b'', 5), (''c'', 6), (''d'', 7)],
           unk_id = 3,
           id2word_dict = [(0, ''<pad>''), (1, ''<s>''), (2, ''</s>''), (3, ''<unk>''),
                      (4, ''a''), (5, ''b''), (6, ''c''), (7, ''d'')]\<rparr>,
          dropped = 0\<rparr> 2 True [0, 2, 1] =
     Inr ([\<lparr>sentences = [[4], [7]], padded = [[1, 4, 2], [1, 7, 2]], reported = [3, 3]\<rparr>,
           \<lparr>sentences = [[5, 6]], padded = [[1, 5, 6, 2]], reported = [4]\<rparr>], 3, 3)"
  by code_simp

lemma batch_passes_three:
  assumes "MonoTextData_init [''a'', ''b c'', ''d''] None None = Inr c"
  shows "batch_passes c 2 True [0, 2, 1] =
     Inr ([\<lparr>sentences = [[4], [7]], padded = [[1, 4, 2], [1, 7, 2]], reported = [3, 3]\<rparr>,
           \<lparr>sentences = [[5, 6]], padded = [[1, 5, 6, 2]], reported = [4]\<rparr>], 3, 3)"
proof -
  from assms have "c = \<lparr>data = [[4], [5, 6], [7]],
          vocab = \<lparr>word2id = [(''<pad>'', 0), (''<s>'', 1), (''</s>'', 2), (''<unk>'', 3),
                      (''a'', 4), (''b'', 5), (''c'', 6), (''d'', 7)],
           unk_id = 3,
           id2word_dict = [(0, ''<pad>''), (1, ''<s>''), (2, ''</s>''), (3, ''<unk>''),
                      (4, ''a''), (5, ''b''), (6, ''c''), (7, ''d'')]\<rparr>,
          dropped = 0\<rparr>" by (simp add: corpus_three)
  then show ?thesis by (simp only: batch_passes_three_closed)
qed

theorem buckets_have_one_length_witness:
  "\<exists>c passes tot cur. MonoTextData_init [''a'', ''b c'', ''d''] None None = Inr c \<and>
     is_argsort (map length (data c)) [0, 2, 1] \<and> (1 :: int) \<le> 2 \<and>
     batch_passes c 2 True [0, 2, 1] = Inr (passes, tot, cur) \<and>
     map sentences passes = [[[4], [7]], [[5, 6]]] \<and>
     map reported passes = [[3, 3], [4]] \<and>
     concat (map sentences passes) = map (\<lambda>i. data c ! i) [0, 2, 1] \<and>
     create_data_batch c 2 True [0, 2, 1] = Inr (map padded passes)"
proof -
  obtain c where c: "MonoTextData_init [''a'', ''b c'', ''d''] None None = Inr c"
    by (simp add: corpus_three)
  then have d: "data c = [[4], [5, 6], [7]]" by (auto simp: corpus_three)
  have a: "is_argsort (map length (data c)) [0, 2, 1]"
    by (auto simp: d is_argsort_def)
  have b: "(1 :: int) \<le> 2" by simp
  from buckets_have_one_length [OF a b, of True] obtain passes tot cur where
    p: "batch_passes c 2 True [0, 2, 1] = Inr (passes, tot, cur)"
    and cc: "concat (map sentences passes) = map (\<lambda>i. data c ! i) [0, 2, 1]"
    by (elim exE conjE) (rule that)
  from p have e: "passes =
      [\<lparr>sentences = [[4], [7]], padded = [[1, 4, 2], [1, 7, 2]], reported = [3, 3]\<rparr>,
       \<lparr>sentences = [[5, 6]], padded = [[1, 5, 6, 2]], reported = [4]\<rparr>]" "tot = 3"
    unfolding batch_passes_three [OF c] by simp_all
  have s: "map sentences passes = [[[4], [7]], [[5, 6]]]" by (simp add: e)
  have r: "map reported passes = [[3, 3], [4]]" by (simp add: e)
  have cr: "create_data_batch c 2 True [0, 2, 1] = Inr (map padded passes)"
    unfolding create_data_batch_def p by (simp add: e(2) d)
  show ?thesis
    by (rule exI [of _ c], rule exI [of _ passes], rule exI [of _ tot], rule exI [of _ cur])
       (rule conjI [OF c conjI [OF a conjI [OF b conjI [OF p conjI [OF s conjI [OF r
          conjI [OF cc cr]]]]]]])
qed

section \<open>The object store\<close>

lemma preserves_refl: "preserves h h"
  by (simp add: preserves_def)

lemma preserves_length: "preserves h h' \<Longrightarrow> length h \<le> length h'"
proof -
  assume "preserves h h'"
  then have "length (take (length h) h') = length h" by (simp add: preserves_def)
  then show ?thesis by simp
qed

lemma preserves_trans: "preserves a b \<Longrightarrow> preserves b c \<Longrightarrow> preserves a c"
proof -
  assume ab: "preserves a b" and bc: "preserves b c"
  from preserves_length [OF ab] have "take (length a) c = take (length a) (take (length b) c)"
    by (simp add: min_def)
  with ab bc show ?thesis by (simp add: preserves_def)
qed

lemma preserves_alloc: "preserves h (snd (alloc h obj))"
  by (simp add: preserves_def alloc_def)

lemma alloc_address: "fst (alloc h obj) = length h"
  by (simp add: alloc_def)

lemma preserves_assign:
  "preserves h0 h \<Longrightarrow> length h0 \<le> a \<Longrightarrow> preserves h0 (assign h a obj)"
  by (simp add: preserves_def assign_def)

lemma preserves_alloc_list: "preserves h (snd (alloc_list h objs))"
proof (induction objs arbitrary: h)
  case Nil
  then show ?case by (simp add: preserves_refl)
next
  case (Cons obj objs)
  have "preserves h (snd (alloc h obj))" by (rule preserves_alloc)
  moreover have "preserves (snd (alloc h obj)) (snd (alloc_list (snd (alloc h obj)) objs))"
    by (rule Cons.IH)
  ultimately have "preserves h (snd (alloc_list (snd (alloc h obj)) objs))"
    by (rule preserves_trans)
  then show ?case by (simp add: split_def)
qed

lemma preserves_to_tensor_h: "preserves h (snd (to_tensor_h h self batch_data bf))"
proof -
  define objs where "objs = map (\<lambda>sent. IntList (ints_at h sent @ [vocab_getitem_h h self ''</s>'']))
      (refs_at h batch_data)"
  define h1 where "h1 = snd (alloc_list h objs)"
  have "preserves h h1" unfolding h1_def by (rule preserves_alloc_list)
  moreover have "preserves h1 (snd (alloc h1 (RefList (fst (alloc_list h objs)))))"
    by (rule preserves_alloc)
  ultimately have "preserves h (snd (alloc h1 (RefList (fst (alloc_list h objs)))))"
    by (rule preserves_trans)
  then show ?thesis
    by (simp add: to_tensor_h_def Let_def split_def objs_def h1_def)
qed

lemma preserves_gather_sort:
  "preserves h (sort_h (snd (gather_h h self ids)) (fst (gather_h h self ids)))"
  unfolding sort_h_def gather_h_def
  by (rule preserves_assign) (simp_all add: preserves_alloc alloc_address)

lemma preserves_batch_step:
  "preserves h (snd (to_tensor_h (sort_h (snd (gather_h h self ids)) (fst (gather_h h self ids)))
      self (fst (gather_h h self ids)) bf))"
  by (rule preserves_trans [OF preserves_gather_sort preserves_to_tensor_h])

lemma preserves_data_sample_h:
  "preserves h (snd (data_sample_h h self nsample bf shuffle shuffled))"
  by (simp add: data_sample_h_def Let_def split_def preserves_batch_step)

lemma preserves_iter_batches_h:
  "preserves h (snd (iter_batches_h h self b bf index_arr is))"
proof (induction "is" arbitrary: h)
  case Nil
  then show ?case by (simp add: preserves_refl)
next
  case (Cons i rest)
  define ids where "ids = take b (drop (i * b) index_arr)"
  define h2 where "h2 = snd (to_tensor_h (sort_h (snd (gather_h h self ids))
      (fst (gather_h h self ids))) self (fst (gather_h h self ids)) bf)"
  have s: "preserves h h2" unfolding h2_def by (rule preserves_batch_step)
  have r: "preserves h (snd (iter_batches_h h2 self b bf index_arr rest))"
    by (rule preserves_trans [OF s Cons.IH])
  show ?case
    using s r
    by (simp add: Let_def split_def ids_def [symmetric] h2_def [symmetric]
        split: sum.splits prod.splits)
qed

lemma preserves_data_iter_h:
  "preserves h (snd (data_iter_h h self batch_size bf shuffle shuffled))"
  by (simp add: data_iter_h_def Let_def preserves_refl preserves_iter_batches_h
      split: sum.splits)

lemma preserves_appends:
  "preserves h0 g \<Longrightarrow> length h0 \<le> a \<Longrightarrow>
     preserves h0 (fold (\<lambda>i h'. append_h h' a (f h' i)) ids g)"
proof (induction ids arbitrary: g)
  case Nil
  then show ?case by simp
next
  case (Cons i ids)
  from Cons.prems have "preserves h0 (append_h g a (f g i))"
    unfolding append_h_def by (rule preserves_assign)
  from Cons.IH [OF this Cons.prems(2)] show ?case by simp
qed

lemma preserves_collect_h: "preserves h (snd (collect_h h self sort_idx ids))"
proof -
  have "preserves h (fold (\<lambda>i h'. append_h h' (length h) (self_data h' self ! (sort_idx ! i)))
      ids (h @ [RefList []]))"
    by (rule preserves_appends) (simp_all add: preserves_def)
  then show ?thesis by (simp add: collect_h_def alloc_def)
qed

lemma preserves_batch_while_h:
  "preserves h (snd (batch_while_h h self sort_idx batch_size bf idx st))"
proof (induction h self sort_idx batch_size bf idx st rule: batch_while_h.induct)
  case (1 h self sort_idx batch_size bf idx batch_data_list tot cur)
  show ?case
  proof (cases "cur < idx")
    case False
    then show ?thesis by (simp add: preserves_refl)
  next
    case True
    define nxt where "nxt = min (int cur + batch_size) (int idx)"
    define b where "b = fst (collect_h h self sort_idx [cur..<nat nxt])"
    define h1 where "h1 = snd (collect_h h self sort_idx [cur..<nat nxt])"
    define r where "r = fst (to_tensor_h h1 self b bf)"
    define h2 where "h2 = snd (to_tensor_h h1 self b bf)"
    have p1: "preserves h h1" unfolding h1_def by (rule preserves_collect_h)
    have p2: "preserves h h2"
      unfolding h2_def by (rule preserves_trans [OF p1 preserves_to_tensor_h])
    have c: "collect_h h self sort_idx [cur..<nat nxt] = (b, h1)" by (simp add: b_def h1_def)
    have t: "to_tensor_h h1 self b bf = (r, h2)" by (simp add: r_def h2_def)
    show ?thesis
    proof (cases r)
      case (Inl e)
      with True c t p2 show ?thesis
        by (subst batch_while_h.simps)
           (simp add: nxt_def [symmetric] Let_def del: batch_while_h.simps)
    next
      case (Inr tl)
      obtain ts sents_len where tl: "tl = (ts, sents_len)" by (cases tl)
      show ?thesis
      proof (cases sents_len)
        case Nil
        with True c t p2 Inr tl show ?thesis
          by (subst batch_while_h.simps)
             (simp add: nxt_def [symmetric] Let_def del: batch_while_h.simps)
      next
        case (Cons l ls)
        show ?thesis
        proof (cases "sents_len = replicate (length sents_len) l")
          case False
          with True c t p2 Inr tl Cons show ?thesis
            by (subst batch_while_h.simps)
               (simp add: nxt_def [symmetric] Let_def del: batch_while_h.simps)
        next
          case eq: True
          have "preserves h2 (snd (batch_while_h h2 self sort_idx batch_size bf idx
              (batch_data_list @ [ts], tot + size0 ts, nat nxt)))"
            by (rule "1.IH" [OF True nxt_def c [symmetric] t [symmetric] Inr tl [symmetric]
                Cons eq])
          from preserves_trans [OF p2 this] True c t Inr tl Cons eq show ?thesis
            by (subst batch_while_h.simps)
               (simp add: nxt_def [symmetric] Let_def del: batch_while_h.simps)
        qed
      qed
    qed
  qed
qed

lemma preserves_batch_for_h:
  "preserves h (snd (batch_for_h h self sort_idx batch_size bf locs st))"
proof (induction locs arbitrary: h st)
  case Nil
  then show ?case by (simp add: preserves_refl)
next
  case (Cons idx rest)
  define r where "r = fst (batch_while_h h self sort_idx batch_size bf idx st)"
  define h1 where "h1 = snd (batch_while_h h self sort_idx batch_size bf idx st)"
  have w: "batch_while_h h self sort_idx batch_size bf idx st = (r, h1)"
    by (simp add: r_def h1_def)
  have p: "preserves h h1" unfolding h1_def by (rule preserves_batch_while_h)
  show ?case
  proof (cases r)
    case (Inl e)
    with w p show ?thesis by (simp del: batch_while_h.simps)
  next
    case (Inr st')
    from preserves_trans [OF p Cons.IH [of h1 st']] w Inr show ?thesis
      by (simp del: batch_while_h.simps)
  qed
qed

lemma preserves_create_data_batch_h:
  "preserves h (snd (create_data_batch_h h self batch_size bf sort_idx))"
proof -
  define locs where "locs = change_loc_of (map (\<lambda>i. map (\<lambda>sent. length (ints_at h sent))
      (self_data h self) ! i) sort_idx)"
  define r where "r = fst (batch_for_h h self sort_idx batch_size bf locs ([], 0, 0))"
  define h1 where "h1 = snd (batch_for_h h self sort_idx batch_size bf locs ([], 0, 0))"
  have f: "batch_for_h h self sort_idx batch_size bf locs ([], 0, 0) = (r, h1)"
    by (simp add: r_def h1_def)
  have p: "preserves h h1" unfolding h1_def by (rule preserves_batch_for_h)
  show ?thesis
    unfolding create_data_batch_h_def Let_def locs_def [symmetric] f
    using p by (cases r) (auto split: prod.splits)
qed

lemma preserves_call_h: "preserves h (call_h h self call)"
  by (cases call)
     (simp_all add: preserves_data_iter_h preserves_create_data_batch_h preserves_data_sample_h)

lemma preserves_calls_h: "preserves h (calls_h h self calls)"
proof (induction calls arbitrary: h)
  case Nil
  then show ?case by (simp add: preserves_refl)
next
  case (Cons call rest)
  from preserves_trans [OF preserves_call_h Cons.IH] show ?case by simp
qed

lemma preserves_deref:
  assumes "preserves h h'" and "deref h a = Some obj"
  shows "deref h' a = Some obj"
proof -
  from assms(2) have a: "a < length h" and o: "h ! a = obj"
    by (auto simp: deref_def split: if_splits)
  from preserves_length [OF assms(1)] a have a': "a < length h'" by simp
  from assms(1) have "take (length h) h' ! a = h ! a" by (simp add: preserves_def)
  with a have "h' ! a = h ! a" by simp
  with a' o show ?thesis by (simp add: deref_def)
qed

lemma preserves_vocab_of:
  assumes "preserves h h'" and "vocab_of h v = Some vo"
  shows "vocab_of h' v = Some vo"
proof -
  from assms(2) obtain wa u ia m nm where
    d: "deref h v = Some (VocabObj wa u ia)" "deref h wa = Some (Dict m)"
       "deref h ia = Some (Names nm)"
    and vo: "vo = \<lparr>word2id = m, unk_id = u, id2word_dict = nm\<rparr>"
    by (auto simp: vocab_of_def split: option.splits pyobj.splits)
  from d [THEN preserves_deref [OF assms(1)]] vo show ?thesis
    by (simp add: vocab_of_def)
qed

lemma preserves_sentences_of:
  assumes "preserves h h'" and "sentences_of h d = Some ss"
  shows "sentences_of h' d = Some ss"
proof -
  from assms(2) obtain rs where
    d: "deref h d = Some (RefList rs)" and all: "list_all (is_sentence h) rs"
    and ss: "ss = map (ints_at h) rs"
    by (auto simp: sentences_of_def split: option.splits pyobj.splits if_splits)
  have each: "is_sentence h' r \<and> ints_at h' r = ints_at h r" if "r \<in> set rs" for r
  proof -
    from all that have "is_sentence h r" by (simp add: list_all_iff)
    then obtain xs where "deref h r = Some (IntList xs)"
      by (auto simp: is_sentence_def split: option.splits pyobj.splits)
    with preserves_deref [OF assms(1) this] show ?thesis
      by (simp add: is_sentence_def ints_at_def)
  qed
  then have "list_all (is_sentence h') rs" and "map (ints_at h') rs = map (ints_at h) rs"
    by (simp_all add: list_all_iff)
  with preserves_deref [OF assms(1) d] ss show ?thesis
    by (simp add: sentences_of_def)
qed

lemma preserves_corpus_of:
  assumes "preserves h h'" and "corpus_of h self = Some c"
  shows "corpus_of h' self = Some c"
proof -
  from assms(2) obtain d v n ss vo where
    s: "deref h self = Some (CorpusObj d v n)" and ss: "sentences_of h d = Some ss"
    and vo: "vocab_of h v = Some vo" and c: "c = \<lparr>data = ss, vocab = vo, dropped = n\<rparr>"
    by (auto simp: corpus_of_def split: option.splits pyobj.splits)
  from preserves_deref [OF assms(1) s] preserves_sentences_of [OF assms(1) ss]
    preserves_vocab_of [OF assms(1) vo] c
  show ?thesis by (simp add: corpus_of_def)
qed

lemma corpus_of_store_corpus: "corpus_of (fst (store_corpus c)) (snd (store_corpus c)) = Some c"
proof -
  define n where "n = length (data c)"
  define h where "h = fst (store_corpus c)"
  have h: "h = map IntList (data c) @
          [RefList [0..<n], Dict (word2id (vocab c)), Names (id2word_dict (vocab c)),
           VocabObj (n + 1) (unk_id (vocab c)) (n + 2), CorpusObj n (n + 3) (dropped c)]"
    by (simp add: h_def store_corpus_def Let_def n_def)
  have len: "length h = n + 5" by (simp add: h n_def)
  have sent: "deref h r = Some (IntList (data c ! r))" if "r < n" for r
    using that by (simp add: deref_def h n_def nth_append)
  have tail: "deref h n = Some (RefList [0..<n])"
    "deref h (n + 1) = Some (Dict (word2id (vocab c)))"
    "deref h (n + 2) = Some (Names (id2word_dict (vocab c)))"
    "deref h (n + 3) = Some (VocabObj (n + 1) (unk_id (vocab c)) (n + 2))"
    "deref h (n + 4) = Some (CorpusObj n (n + 3) (dropped c))"
    by (simp_all add: deref_def h n_def nth_append)
  have all: "list_all (is_sentence h) [0..<n]"
    by (simp add: list_all_iff is_sentence_def sent)
  have "map (ints_at h) [0..<n] = map (\<lambda>r. data c ! r) [0..<n]"
    by (simp add: ints_at_def sent)
  also have "\<dots> = data c" unfolding n_def by (rule map_nth)
  finally have ss: "sentences_of h n = Some (data c)"
    unfolding sentences_of_def tail by (simp add: all)
  have tail': "deref h (Suc n) = Some (Dict (word2id (vocab c)))"
    "deref h (Suc (Suc n)) = Some (Names (id2word_dict (vocab c)))"
    using tail(2,3) by simp_all
  have vo: "vocab_of h (n + 3) = Some (vocab c)"
    unfolding vocab_of_def tail by (simp add: tail')
  have "corpus_of h (n + 4) = Some c"
    unfolding corpus_of_def tail by (simp add: ss vo)
  then show ?thesis by (simp add: h_def store_corpus_def Let_def n_def)
qed

text \<open>
  C9.  In a store that holds a corpus, each of the three batching methods, and any series
  of calls of them with any arguments, leaves every object that existed before as it was:
  the store only grows at its end.  The in-place operations of the methods (the \<open>sort\<close>
  of \<open>data_iter\<close> and \<open>data_sample\<close>, the \<open>append\<close> of \<open>create_data_batch\<close>) act on
  the list the call has just made, and the stop symbol is appended to a copy of each
  sentence.  So the corpus read from the store after the calls is the corpus read before
  them: the same sequences in the same order, the same vocabulary and drop count.
\<close>

theorem batching_leaves_corpus:
  assumes "corpus_of h self = Some c"
  shows "preserves h (snd (data_iter_h h self batch_size bf shuffle shuffled)) \<and>
     corpus_of (snd (data_iter_h h self batch_size bf shuffle shuffled)) self = Some c \<and>
     preserves h (snd (create_data_batch_h h self batch_size bf sort_idx)) \<and>
     corpus_of (snd (create_data_batch_h h self batch_size bf sort_idx)) self = Some c \<and>
     preserves h (snd (data_sample_h h self nsample bf shuffle shuffled)) \<and>
     corpus_of (snd (data_sample_h h self nsample bf shuffle shuffled)) self = Some c \<and>
     preserves h (calls_h h self calls) \<and>
     corpus_of (calls_h h self calls) self = Some c"
  by (intro conjI preserves_corpus_of [OF _ assms] preserves_data_iter_h
      preserves_create_data_batch_h preserves_data_sample_h preserves_calls_h)

lemma data_sample_h_example:
  "fst (data_sample_h
     (fst (store_corpus \<lparr>data = [[4], [5, 6]],
        vocab = \<lparr>word2id = [(''<pad>'', 0), (''<s>'', 1), (''</s>'', 2), (''<unk>'', 3),
                      (''a'', 4), (''b'', 5), (''c'', 6)],
           unk_id = 3,
           id2word_dict = [(0, ''<pad>''), (1, ''<s>''), (2, ''</s>''), (3, ''<unk>''),
                      (4, ''a''), (5, ''b''), (6, ''c'')]\<rparr>,
        dropped = 0\<rparr>))
     (snd (store_corpus \<lparr>data = [[4], [5, 6]],
        vocab = \<lparr>word2id = [(''<pad>'', 0), (''<s>'', 1), (''</s>'', 2), (''<unk>'', 3),
                      (''a'', 4), (''b'', 5), (''c'', 6)],
           unk_id = 3,
           id2word_dict = [(0, ''<pad>''), (1, ''<s>''), (2, ''</s>''), (3, ''<unk>''),
                      (4, ''a''), (5, ''b''), (6, ''c'')]\<rparr>,
        dropped = 0\<rparr>))
     2 False False []) = Inr ([[1, 1], [5, 4], [6, 2], [2, 0]], [4, 3])"
  by code_simp

theorem batching_leaves_corpus_witness:
  "corpus_of (fst (store_corpus \<lparr>data = [[4], [5, 6]],
        vocab = \<lparr>word2id = [(''<pad>'', 0), (''<s>'', 1), (''</s>'', 2), (''<unk>'', 3),
                      (''a'', 4), (''b'', 5), (''c'', 6)],
           unk_id = 3,
           id2word_dict = [(0, ''<pad>''), (1, ''<s>''), (2, ''</s>''), (3, ''<unk>''),
                      (4, ''a''), (5, ''b''), (6, ''c'')]\<rparr>,
        dropped = 0\<rparr>))
     (snd (store_corpus \<lparr>data = [[4], [5, 6]],
        vocab = \<lparr>word2id = [(''<pad>'', 0), (''<s>'', 1), (''</s>'', 2), (''<unk>'', 3),
                      (''a'', 4), (''b'', 5), (''c'', 6)],
           unk_id = 3,
           id2word_dict = [(0, ''<pad>''), (1, ''<s>''), (2, ''</s>''), (3, ''<unk>''),
                      (4, ''a''), (5, ''b''), (6, ''c'')]\<rparr>,
        dropped = 0\<rparr>)) =
     Some \<lparr>data = [[4], [5, 6]],
        vocab = \<lparr>word2id = [(''<pad>'', 0), (''<s>'', 1), (''</s>'', 2), (''<unk>'', 3),
                      (''a'', 4), (''b'', 5), (''c'', 6)],
           unk_id = 3,
           id2word_dict = [(0, ''<pad>''), (1, ''<s>''), (2, ''</s>''), (3, ''<unk>''),
                      (4, ''a''), (5, ''b''), (6, ''c'')]\<rparr>,
        dropped = 0\<rparr> \<and>
   corpus_of (calls_h (fst (store_corpus \<lparr>data = [[4], [5, 6]],
        vocab = \<lparr>word2id = [(''<pad>'', 0), (''<s>'', 1), (''</s>'', 2), (''<unk>'', 3),
                      (''a'', 4), (''b'', 5), (''c'', 6)],
           unk_id = 3,
           id2word_dict = [(0, ''<pad>''), (1, ''<s>''), (2, ''</s>''), (3, ''<unk>''),
                      (4, ''a''), (5, ''b''), (6, ''c'')]\<rparr>,
        dropped = 0\<rparr>))
     (snd (store_corpus \<lparr>data = [[4], [5, 6]],
        vocab = \<lparr>word2id = [(''<pad>'', 0), (''<s>'', 1), (''</s>'', 2), (''<unk>'', 3),
                      (''a'', 4), (''b'', 5), (''c'', 6)],
           unk_id = 3,
           id2word_dict = [(0, ''<pad>''), (1, ''<s>''), (2, ''</s>''), (3, ''<unk>''),
                      (4, ''a''), (5, ''b''), (6, ''c'')]\<rparr>,
        dropped = 0\<rparr>))
     [Data_sample 2 False False [], Data_iter 1 False True [1, 0],
      Create_data_batch 1 True [0, 1]])
     (snd (store_corpus \<lparr>data = [[4], [5, 6]],
        vocab = \<lparr>word2id = [(''<pad>'', 0), (''<s>'', 1), (''</s>'', 2), (''<unk>'', 3),
                      (''a'', 4), (''b'', 5), (''c'', 6)],
           unk_id = 3,
           id2word_dict = [(0, ''<pad>''), (1, ''<s>''), (2, ''</s>''), (3, ''<unk>''),
                      (4, ''a''), (5, ''b''), (6, ''c'')]\<rparr>,
        dropped = 0\<rparr>)) =
     Some \<lparr>data = [[4], [5, 6]],
        vocab = \<lparr>word2id = [(''<pad>'', 0), (''<s>'', 1), (''</s>'', 2), (''<unk>'', 3),
                      (''a'', 4), (''b'', 5), (''c'', 6)],
           unk_id = 3,
           id2word_dict = [(0, ''<pad>''), (1, ''<s>''), (2, ''</s>''), (3, ''<unk>''),
                      (4, ''a''), (5, ''b''), (6, ''c'')]\<rparr>,
        dropped = 0\<rparr>"
proof -
  define c where "c = \<lparr>data = [[4], [5, 6 :: int]],
        vocab = \<lparr>word2id = [(''<pad>'', 0), (''<s>'', 1), (''</s>'', 2), (''<unk>'', 3 :: int),
                      (''a'', 4), (''b'', 5), (''c'', 6)],
           unk_id = 3,
           id2word_dict = [(0 :: int, ''<pad>''), (1, ''<s>''), (2, ''</s>''), (3, ''<unk>''),
                      (4, ''a''), (5, ''b''), (6, ''c'')]\<rparr>,
        dropped = 0\<rparr>"
  have s: "corpus_of (fst (store_corpus c)) (snd (store_corpus c)) = Some c"
    by (rule corpus_of_store_corpus)
  from batching_leaves_corpus [OF s, of 1 False False "[]" "[]" 1
      "[Data_sample 2 False False [], Data_iter 1 False True [1, 0],
        Create_data_batch 1 True [0, 1]]"]
  have "corpus_of (calls_h (fst (store_corpus c)) (snd (store_corpus c))
     [Data_sample 2 False False [], Data_iter 1 False True [1, 0],
      Create_data_batch 1 True [0, 1]]) (snd (store_corpus c)) = Some c"
    by (elim conjE)
  with s show ?thesis unfolding c_def by (rule conjI)
qed

end
